theory Spec2Isabelle
  imports Main "HOL-Library.Word" "HOL-Library.Signed_Division"
begin

unbundle bit_operations_syntax

section \<open>Data model of \<^verbatim>\<open>riscv/processor.cc\<close>\<close>

text \<open>
  \<^verbatim>\<open>reg_t\<close> and \<^verbatim>\<open>freg_t\<close> are 8 bytes and \<^verbatim>\<open>insn_t\<close> is 4 bytes (the
  \<^verbatim>\<open>static_assert\<close>s of the constructor). A trap code is an enumerator, read as
  a natural number.
\<close>

type_synonym reg_t = "64 word"
type_synonym freg_t = "64 word"
type_synonym insn_t = "32 word"
type_synonym trap_t = nat

text \<open>
  The constants and build switches that \<^verbatim>\<open>processor.cc\<close> takes from headers
  (\<^verbatim>\<open>processor.h\<close>, \<^verbatim>\<open>common.h\<close>, \<^verbatim>\<open>config.h\<close>, the trap list) are parameters
  of the model: every function below receives them in one record. A build switch is
  \<open>True\<close> when its \<^verbatim>\<open>#define\<close> is present.
\<close>

record params =
  SR_ET :: "32 word"
  SR_EF :: "32 word"
  SR_EV :: "32 word"
  SR_EC :: "32 word"
  SR_PS :: "32 word"
  SR_S :: "32 word"
  SR_UX :: "32 word"
  SR_SX :: "32 word"
  SR_IM :: "32 word"
  SR_VM :: "32 word"
  SR_ZERO :: "32 word"
  SR_IM_SHIFT :: nat
  FSR_ZERO :: "32 word"
  CAUSE_EXCCODE :: "32 word"
  CAUSE_EXCCODE_SHIFT :: nat
  CAUSE_IP :: "32 word"
  CAUSE_IP_SHIFT :: nat
  TIMER_IRQ :: nat
  IPI_IRQ :: nat
  NUM_TRAPS :: nat
  trap_interrupt :: trap_t
  trap_illegal_instruction :: trap_t
  MAX_UTS :: int
  DISPATCH_TABLE_SIZE :: nat
  RISCV_ENABLE_64BIT :: bool
  RISCV_ENABLE_FPU :: bool
  RISCV_ENABLE_RVC :: bool
  RISCV_ENABLE_VEC :: bool

text \<open>
  Modelled from the spec: the memory subsystem \<^verbatim>\<open>mmu_t\<close>, an external collaborator
  that \<^verbatim>\<open>processor.cc\<close> uses but does not define. Of its state the model keeps what
  \<^verbatim>\<open>processor.cc\<close> writes and reads through its interface: the virtual-memory and
  supervisor flags it is notified of, the number of translation-cache flushes, and the
  faulting address it reports. Fetching an instruction is a parameter of the step loop.
\<close>

record mmu_t =
  vm_enabled :: bool
  supervisor :: bool
  tlb_flushes :: nat
  mmu_badvaddr :: reg_t

definition set_vm_enabled :: "bool \<Rightarrow> mmu_t \<Rightarrow> mmu_t" where
  "set_vm_enabled b m = m\<lparr>vm_enabled := b\<rparr>"

definition set_supervisor :: "bool \<Rightarrow> mmu_t \<Rightarrow> mmu_t" where
  "set_supervisor b m = m\<lparr>supervisor := b\<rparr>"

definition flush_tlb :: "mmu_t \<Rightarrow> mmu_t" where
  "flush_tlb m = m\<lparr>tlb_flushes := Suc (tlb_flushes m)\<rparr>"

definition get_badvaddr :: "mmu_t \<Rightarrow> reg_t" where
  "get_badvaddr m = mmu_badvaddr m"

text \<open>
  The processor state. The register files and the lane array are fixed-size C arrays,
  read here by index. The type of \<^verbatim>\<open>count\<close> and \<^verbatim>\<open>compare\<close> is declared in
  \<^verbatim>\<open>processor.h\<close>; \<^verbatim>\<open>step\<close> treats it as unsigned
  (\<^verbatim>\<open>typeof(count) max_count = -1\<close>), so the record leaves the type open and the
  functions below take it to be an unsigned machine word of any width \<open>'w\<close>. The
  vector fields are C \<^verbatim>\<open>int\<close>s (\<^verbatim>\<open>std::min(vlmax, vlapp)\<close> with
  \<^verbatim>\<open>int vlapp\<close>), modelled as integers. A lane pointer is \<open>None\<close> when it is
  \<^verbatim>\<open>NULL\<close> and \<open>Some\<close> of the lane's handle otherwise. The field \<^verbatim>\<open>id\<close> is
  named \<open>id_core\<close> here.
\<close>

record 'c processor_t =
  run :: bool
  XPR :: "nat \<Rightarrow> reg_t"
  FPR :: "nat \<Rightarrow> freg_t"
  pc :: reg_t
  evec :: reg_t
  epc :: reg_t
  badvaddr :: reg_t
  cause :: "32 word"
  pcr_k0 :: reg_t
  pcr_k1 :: reg_t
  tohost :: reg_t
  fromhost :: reg_t
  count :: "'c"
  compare :: "'c"
  cycle :: reg_t
  sr :: "32 word"
  fsr :: "32 word"
  xprlen :: nat
  vecbanks :: "32 word"
  vecbanks_count :: int
  utidx :: int
  vlmax :: int
  vl :: int
  nxfpr_bank :: int
  nxpr_use :: int
  nfpr_use :: int
  uts :: "nat \<Rightarrow> nat option"
  id_core :: "32 word"
  mmu :: mmu_t

section \<open>Status registers\<close>

definition set_sr :: "params \<Rightarrow> 32 word \<Rightarrow> ('w::len) word processor_t \<Rightarrow> 'w word processor_t" where
  "set_sr a val p =
    (let sr0 = val AND NOT (SR_ZERO a);
         sr1 = (if RISCV_ENABLE_64BIT a then sr0 else sr0 AND NOT (SR_SX a OR SR_UX a));
         sr2 = (if RISCV_ENABLE_FPU a then sr1 else sr1 AND NOT (SR_EF a));
         sr3 = (if RISCV_ENABLE_RVC a then sr2 else sr2 AND NOT (SR_EC a));
         sr4 = (if RISCV_ENABLE_VEC a then sr3 else sr3 AND NOT (SR_EV a));
         m = flush_tlb (set_supervisor (sr4 AND SR_S a \<noteq> 0)
               (set_vm_enabled (sr4 AND SR_VM a \<noteq> 0) (mmu p)))
     in p\<lparr>sr := sr4, mmu := m,
          xprlen := (if (if sr4 AND SR_S a \<noteq> 0 then sr4 AND SR_SX a else sr4 AND SR_UX a) \<noteq> 0
                     then 64 else 32)\<rparr>)"

definition set_fsr :: "params \<Rightarrow> 32 word \<Rightarrow> ('w::len) word processor_t \<Rightarrow> 'w word processor_t" where
  "set_fsr a val p = p\<lparr>fsr := val AND NOT (FSR_ZERO a)\<rparr>"

section \<open>Vector configuration\<close>

text \<open>
  The vector fields are C \<^verbatim>\<open>int\<close>s of 32 bits. \<open>is_c_int\<close> is the range of the
  type, and \<open>c_int\<close> is the value that an \<^verbatim>\<open>int\<close> operation yields for the exact
  result \<open>k\<close>: \<open>k\<close> itself in the range, and \<open>k\<close> reduced modulo \<open>2 ^ 32\<close> into
  the range when the operation overflows (the language leaves a signed overflow
  undefined; the compiled code wraps). C's \<^verbatim>\<open>/\<close> on \<^verbatim>\<open>int\<close> truncates towards
  zero: \<open>sdiv\<close>.
\<close>

definition is_c_int :: "int \<Rightarrow> bool" where
  "is_c_int k \<longleftrightarrow> - (2 ^ 31) \<le> k \<and> k < 2 ^ 31"

definition c_int :: "int \<Rightarrow> int" where
  "c_int k = (k + 2 ^ 31) mod 2 ^ 32 - 2 ^ 31"

definition vcfg :: "params \<Rightarrow> ('w::len) word processor_t \<Rightarrow> 'w word processor_t" where
  "vcfg a p =
    (let v = (if c_int (nxpr_use p + nfpr_use p) < 2
              then c_int (nxfpr_bank p * vecbanks_count p)
              else c_int (c_int (nxfpr_bank p sdiv
                                   c_int (c_int (nxpr_use p + nfpr_use p) - 1)) *
                          vecbanks_count p))
     in p\<lparr>vlmax := min v (MAX_UTS a)\<rparr>)"

definition setvl :: "int \<Rightarrow> ('w::len) word processor_t \<Rightarrow> 'w word processor_t" where
  "setvl vlapp p = p\<lparr>vl := min (vlmax p) vlapp\<rparr>"

section \<open>Reset\<close>

definition reset :: "params \<Rightarrow> ('w::len) word processor_t \<Rightarrow> 'w word processor_t" where
  "reset a p =
    (let p1 = p\<lparr>run := False, XPR := (\<lambda>_. 0), FPR := (\<lambda>_. 0),
                 pc := 0, evec := 0, epc := 0, badvaddr := 0, cause := 0,
                 pcr_k0 := 0, pcr_k1 := 0, tohost := 0, fromhost := 0,
                 count := 0, compare := 0, cycle := 0\<rparr>;
         p2 = set_sr a (SR_S a OR SR_SX a) p1;
         p3 = set_fsr a 0 p2
     in p3\<lparr>vecbanks := 0xff, vecbanks_count := 8, utidx := - 1, vlmax := 32, vl := 0,
            nxfpr_bank := 256, nxpr_use := 32, nfpr_use := 32,
            uts := (\<lambda>i. if int i < MAX_UTS a then None else uts p3 i)\<rparr>)"

section \<open>Trap delivery\<close>

text \<open>
  Modelled from the spec: the \<^verbatim>\<open>demand\<close> macro of \<^verbatim>\<open>common.h\<close>, which
  \<^verbatim>\<open>processor.cc\<close> uses but does not define. A failed \<^verbatim>\<open>demand\<close> aborts the whole
  process with its diagnostic; the diagnostic is represented by the arguments that
  \<^verbatim>\<open>take_trap\<close> passes to the format string (\<^verbatim>\<open>trap_name t\<close> by the code \<open>t\<close>
  itself). A call through a null function pointer ends the process as well.
\<close>

datatype fatal =
  Bad_trap_number int
  | Error_mode "32 word" trap_t reg_t
  | Null_function_pointer

definition demand :: "bool \<Rightarrow> fatal \<Rightarrow> fatal + unit" where
  "demand c d = (if c then Inr () else Inl d)"

text \<open>The \<^verbatim>\<open>printf\<close> of the noisy mode changes no state.\<close>

definition take_trap ::
  "params \<Rightarrow> trap_t \<Rightarrow> bool \<Rightarrow> ('w::len) word processor_t \<Rightarrow> fatal + 'w word processor_t" where
  "take_trap a t noisy p =
    (case demand (t < NUM_TRAPS a) (Bad_trap_number (int t)) of
       Inl d \<Rightarrow> Inl d
     | Inr _ \<Rightarrow>
      (case demand (sr p AND SR_ET a \<noteq> 0) (Error_mode (id_core p) t (pc p)) of
         Inl d \<Rightarrow> Inl d
       | Inr _ \<Rightarrow>
          (let p1 = set_sr a
                 ((((sr p AND NOT (SR_ET a)) OR SR_S a) AND NOT (SR_PS a)) OR
                  (if sr p AND SR_S a \<noteq> 0 then SR_PS a else 0)) p;
               p2 = p1\<lparr>cause := (cause p1 AND NOT (CAUSE_EXCCODE a)) OR
                                 push_bit (CAUSE_EXCCODE_SHIFT a) (word_of_nat t)\<rparr>;
               p3 = p2\<lparr>epc := pc p2\<rparr>;
               p4 = p3\<lparr>pc := evec p3\<rparr>
           in Inr (p4\<lparr>badvaddr := get_badvaddr (mmu p4)\<rparr>))))"

definition deliver_ipi :: "params \<Rightarrow> ('w::len) word processor_t \<Rightarrow> 'w word processor_t" where
  "deliver_ipi a p =
    p\<lparr>cause := cause p OR push_bit (IPI_IRQ a + CAUSE_IP_SHIFT a) 1, run := True\<rparr>"

section \<open>Decode and dispatch\<close>

text \<open>
  An entry of the opcode table (\<^verbatim>\<open>opcodes.h\<close>, one \<^verbatim>\<open>DECLARE_INSN\<close> per
  instruction, in file order) and of a dispatch chain. The handler is kept abstract;
  the field \<^verbatim>\<open>mask\<close> is named \<open>mask_bits\<close> here.
\<close>

record 'f insn_chain_t =
  func :: 'f
  opcode :: "32 word"
  mask_bits :: "32 word"

text \<open>
  A slot of \<^verbatim>\<open>dispatch_table\<close> holds a function pointer: null before the table
  is built, then the address of an instruction's handler or of
  \<^verbatim>\<open>processor_t::dispatch\<close>.
\<close>

datatype 'f insn_func_t = Insn_func 'f | Dispatch

record 'f dispatch_state =
  dispatch_table :: "'f insn_func_t option list"
  dispatch_chain :: "'f insn_chain_t list list"

text \<open>The two static arrays before any constructor has run: zero-initialised.\<close>

definition static_init :: "params \<Rightarrow> 'f dispatch_state" where
  "static_init a =
    \<lparr>dispatch_table = replicate (DISPATCH_TABLE_SIZE a) None,
     dispatch_chain = replicate (DISPATCH_TABLE_SIZE a) []\<rparr>"

text \<open>
  The body of the first loop of \<^verbatim>\<open>initialize_dispatch_table\<close> for one index
  \<open>i\<close>: the expansion of \<^verbatim>\<open>opcodes.h\<close>, one conditional \<^verbatim>\<open>push_back\<close> per
  entry. The index is below the table size, which is at most \<open>2 ^ 32\<close>, so the
  comparison is one of 32-bit values.
\<close>

definition declare_insns ::
  "params \<Rightarrow> 'f insn_chain_t list \<Rightarrow> nat \<Rightarrow> 'f insn_chain_t list \<Rightarrow> 'f insn_chain_t list" where
  "declare_insns a opcodes i chain =
    fold (\<lambda>e c.
        if word_of_nat i AND mask_bits e =
           opcode e AND mask_bits e AND word_of_nat (DISPATCH_TABLE_SIZE a - 1)
        then c @ [e] else c)
      opcodes chain"

definition initialize_dispatch_table ::
  "params \<Rightarrow> 'f insn_chain_t list \<Rightarrow> 'f dispatch_state \<Rightarrow> 'f dispatch_state" where
  "initialize_dispatch_table a opcodes g =
    (if dispatch_table g ! 0 \<noteq> None then g
     else
      (let chains = map (\<lambda>i. declare_insns a opcodes i (dispatch_chain g ! i))
                      [0 ..< DISPATCH_TABLE_SIZE a];
           table = map (\<lambda>i. if length (chains ! i) = 1
                             then Some (Insn_func (func (chains ! i ! 0)))
                             else Some Dispatch)
                      [0 ..< DISPATCH_TABLE_SIZE a]
       in \<lparr>dispatch_table = table, dispatch_chain = chains\<rparr>))"

text \<open>
  What a dispatch reaches: a handler, the illegal-instruction trap, or a call through a
  null pointer (a table that was never built).
\<close>

datatype 'f selected = Handler 'f | Illegal_instruction | Null_pointer

text \<open>\<^verbatim>\<open>processor_t::dispatch\<close>, up to the call of the handler it finds.\<close>

definition dispatch_select :: "params \<Rightarrow> 'f dispatch_state \<Rightarrow> insn_t \<Rightarrow> 'f selected" where
  "dispatch_select a g insn =
    (let idx = unat insn mod DISPATCH_TABLE_SIZE a
     in case find (\<lambda>c. insn AND mask_bits c = opcode c) (dispatch_chain g ! idx) of
          Some c \<Rightarrow> Handler (func c)
        | None \<Rightarrow> Illegal_instruction)"

text \<open>
  The indirect call \<^verbatim>\<open>dispatch_table[insn.bits % DISPATCH_TABLE_SIZE]\<close> of
  \<^verbatim>\<open>execute_insn\<close>, up to the handler it reaches.
\<close>

definition table_select :: "params \<Rightarrow> 'f dispatch_state \<Rightarrow> insn_t \<Rightarrow> 'f selected" where
  "table_select a g insn =
    (case dispatch_table g ! (unat insn mod DISPATCH_TABLE_SIZE a) of
       None \<Rightarrow> Null_pointer
     | Some Dispatch \<Rightarrow> dispatch_select a g insn
     | Some (Insn_func f) \<Rightarrow> Handler f)"

text \<open>
  The specification's reference for dispatch: a first-match scan of the whole opcode
  table in its listed order.
\<close>

definition linear_scan_spec :: "'f insn_chain_t list \<Rightarrow> insn_t \<Rightarrow> 'f selected" where
  "linear_scan_spec opcodes insn =
    (case find (\<lambda>c. insn AND mask_bits c = opcode c) opcodes of
       Some c \<Rightarrow> Handler (func c)
     | None \<Rightarrow> Illegal_instruction)"

section \<open>The step loop\<close>

text \<open>
  The values thrown in \<^verbatim>\<open>processor.cc\<close> are a \<^verbatim>\<open>trap_t\<close>, a
  \<^verbatim>\<open>vt_command_t\<close> and a \<^verbatim>\<open>halt_t\<close>. A call returns a value, throws with the
  state as it is at the throw, or aborts the process.
\<close>

datatype vt_command_t = vt_command_stop | vt_command_other nat

datatype signal = Trap trap_t | Vt_command vt_command_t | Halt

datatype ('s, 'r) outcome = Returns 'r 's | Throws signal 's | Aborts fatal

text \<open>
  A handler receives the processor, the instruction and the program counter and returns
  the next program counter. \<^verbatim>\<open>mmu.load_insn\<close> belongs to the memory subsystem and is
  a parameter \<open>ld\<close> of the loop, of type \<open>load_insn_t\<close>.
\<close>

type_synonym 'c insn_handler =
  "'c processor_t \<Rightarrow> insn_t \<Rightarrow> reg_t \<Rightarrow> ('c processor_t, reg_t) outcome"

type_synonym load_insn_t = "mmu_t \<Rightarrow> reg_t \<Rightarrow> bool \<Rightarrow> (mmu_t, insn_t) outcome"

definition take_interrupt ::
  "params \<Rightarrow> ('w::len) word processor_t \<Rightarrow> ('w word processor_t, unit) outcome" where
  "take_interrupt a p =
    (let interrupts = drop_bit (CAUSE_IP_SHIFT a) (cause p AND CAUSE_IP a);
         interrupts = interrupts AND drop_bit (SR_IM_SHIFT a) (sr p AND SR_IM a)
     in if interrupts \<noteq> 0 \<and> sr p AND SR_ET a \<noteq> 0
        then Throws (Trap (trap_interrupt a)) p
        else Returns () p)"

text \<open>
  The macro \<^verbatim>\<open>execute_insn\<close>. In noisy mode \<^verbatim>\<open>disasm\<close> prints the instruction;
  it changes no state (where the external disassembler is linked in, it also checks the
  length that the disassembler reports, which is taken to agree).
\<close>

definition execute_insn ::
  "params \<Rightarrow> load_insn_t \<Rightarrow> ('w::len) word insn_handler dispatch_state \<Rightarrow> bool \<Rightarrow>
   'w word processor_t \<Rightarrow> ('w word processor_t, unit) outcome" where
  "execute_insn a ld g noisy p =
    (case ld (mmu p) (pc p) (sr p AND SR_EC a \<noteq> 0) of
       Aborts d \<Rightarrow> Aborts d
     | Throws s m \<Rightarrow> Throws s (p\<lparr>mmu := m\<rparr>)
     | Returns insn m \<Rightarrow>
        (let p1 = p\<lparr>mmu := m\<rparr>
         in case table_select a g insn of
              Null_pointer \<Rightarrow> Aborts Null_function_pointer
            | Illegal_instruction \<Rightarrow> Throws (Trap (trap_illegal_instruction a)) p1
            | Handler f \<Rightarrow>
               (case f p1 insn (pc p1) of
                  Aborts d \<Rightarrow> Aborts d
                | Throws s p2 \<Rightarrow> Throws s p2
                | Returns npc p2 \<Rightarrow>
                    (let p3 = p2\<lparr>pc := npc\<rparr>
                     in Returns () (p3\<lparr>XPR := (XPR p3)(0 := 0)\<rparr>)))))"

definition and_then ::
  "('s, unit) outcome \<Rightarrow> ('s \<Rightarrow> ('s, unit) outcome) \<Rightarrow> ('s, unit) outcome" where
  "and_then r f = (case r of Returns _ s \<Rightarrow> f s | Throws x s \<Rightarrow> Throws x s | Aborts d \<Rightarrow> Aborts d)"

text \<open>
  \<^verbatim>\<open>for( ; i < n; i++) execute_insn(noisy);\<close> The result carries the value of
  \<open>i\<close> at the exit, which the handlers of the \<^verbatim>\<open>try\<close> block go on from.
\<close>

function for_each ::
  "params \<Rightarrow> load_insn_t \<Rightarrow> ('w::len) word insn_handler dispatch_state \<Rightarrow> nat \<Rightarrow> bool \<Rightarrow>
   nat \<Rightarrow> 'w word processor_t \<Rightarrow> nat \<times> ('w word processor_t, unit) outcome" where
  "for_each a ld g n noisy i p =
    (if i < n
     then (case execute_insn a ld g noisy p of
             Returns _ p' \<Rightarrow> for_each a ld g n noisy (Suc i) p'
           | Throws s p' \<Rightarrow> (i, Throws s p')
           | Aborts d \<Rightarrow> (i, Aborts d))
     else (i, Returns () p))"
  by pat_completeness auto
termination
  by (relation "measure (\<lambda>(a, ld, g, n, noisy, i, p). n - i)") auto

declare for_each.simps [simp del]

text \<open>
  \<^verbatim>\<open>for( ; n > 3 && i < n-3; i+=4)\<close> with four \<^verbatim>\<open>execute_insn(false)\<close> in its
  body.
\<close>

function for_unrolled ::
  "params \<Rightarrow> load_insn_t \<Rightarrow> ('w::len) word insn_handler dispatch_state \<Rightarrow> nat \<Rightarrow>
   nat \<Rightarrow> 'w word processor_t \<Rightarrow> nat \<times> ('w word processor_t, unit) outcome" where
  "for_unrolled a ld g n i p =
    (if n > 3 \<and> i < n - 3
     then (case and_then (and_then (and_then (execute_insn a ld g False p)
                   (execute_insn a ld g False)) (execute_insn a ld g False))
                   (execute_insn a ld g False) of
             Returns _ p' \<Rightarrow> for_unrolled a ld g n (i + 4) p'
           | Throws s p' \<Rightarrow> (i, Throws s p')
           | Aborts d \<Rightarrow> (i, Aborts d))
     else (i, Returns () p))"
  by pat_completeness auto
termination
  by (relation "measure (\<lambda>(a, ld, g, n, i, p). n - i)") auto

declare for_unrolled.simps [simp del]

text \<open>The body of the \<^verbatim>\<open>try\<close> block, up to the \<^verbatim>\<open>break\<close>.\<close>

definition try_block ::
  "params \<Rightarrow> load_insn_t \<Rightarrow> ('w::len) word insn_handler dispatch_state \<Rightarrow> nat \<Rightarrow> bool \<Rightarrow>
   nat \<Rightarrow> 'w word processor_t \<Rightarrow> nat \<times> ('w word processor_t, unit) outcome" where
  "try_block a ld g n noisy i p =
    (case take_interrupt a p of
       Aborts d \<Rightarrow> (i, Aborts d)
     | Throws s p' \<Rightarrow> (i, Throws s p')
     | Returns _ p' \<Rightarrow>
        (if noisy then for_each a ld g n True i p'
         else (case for_unrolled a ld g n i p' of
                 (i', Returns _ p'') \<Rightarrow> for_each a ld g n False i' p''
               | (i', Throws s p'') \<Rightarrow> (i', Throws s p'')
               | (i', Aborts d) \<Rightarrow> (i', Aborts d))))"

text \<open>
  How \<^verbatim>\<open>while(1) try { ... } catch ...\<close> is left: by \<^verbatim>\<open>break\<close> with the
  current \<open>i\<close>, by the \<^verbatim>\<open>return\<close> of the \<^verbatim>\<open>halt_t\<close> handler, or by an abort.
  The loop need not end for every assignment of the constants (a trap that leaves
  \<^verbatim>\<open>SR_ET\<close> set can be taken again and again), so it is a partial function:
  \<open>None\<close> is a loop that runs forever.
\<close>

datatype 'c loop_exit = Break nat "'c processor_t" | Halted "'c processor_t" | Fatal fatal

partial_function (option) step_loop ::
  "params \<Rightarrow> load_insn_t \<Rightarrow> ('w::len) word insn_handler dispatch_state \<Rightarrow> nat \<Rightarrow> bool \<Rightarrow>
   nat \<Rightarrow> 'w word processor_t \<Rightarrow> 'w word loop_exit option" where
  "step_loop a ld g n noisy i p =
    (case try_block a ld g n noisy i p of
       (i', Returns _ p') \<Rightarrow> Some (Break i' p')
     | (i', Aborts d) \<Rightarrow> Some (Fatal d)
     | (i', Throws (Trap t) p') \<Rightarrow>
        (case take_trap a t noisy p' of
           Inl d \<Rightarrow> Some (Fatal d)
         | Inr p'' \<Rightarrow> step_loop a ld g n noisy (Suc i') p'')
     | (i', Throws (Vt_command cmd) p') \<Rightarrow>
        (if cmd = vt_command_stop then Some (Break (Suc i') p')
         else step_loop a ld g n noisy (Suc i') p')
     | (i', Throws Halt p') \<Rightarrow> Some (Halted (reset a p')))"

text \<open>
  The end of \<^verbatim>\<open>step\<close>, after the loop. \<open>i\<close> is a \<^verbatim>\<open>size_t\<close> (64 bits); the
  counter is no wider, so \<^verbatim>\<open>count += i\<close> keeps the low bits of the sum and
  \<^verbatim>\<open>max_count - i\<close> is computed in 64 bits.
\<close>

definition timer_update ::
  "params \<Rightarrow> nat \<Rightarrow> ('w::len) word processor_t \<Rightarrow> 'w word processor_t" where
  "timer_update a i p =
    (let p1 = p\<lparr>cycle := cycle p + word_of_nat i\<rparr>;
         old_count = count p1;
         max_count = (- 1 :: 'w word);
         p2 = p1\<lparr>count := count p1 + word_of_nat i\<rparr>
     in if old_count < compare p2 \<and>
           (count p2 \<ge> compare p2 \<or>
            (ucast old_count :: 64 word) > ucast max_count - word_of_nat i)
        then p2\<lparr>cause := cause p2 OR push_bit (TIMER_IRQ a + CAUSE_IP_SHIFT a) 1\<rparr>
        else p2)"

definition step ::
  "params \<Rightarrow> load_insn_t \<Rightarrow> ('w::len) word insn_handler dispatch_state \<Rightarrow> nat \<Rightarrow> bool \<Rightarrow>
   'w word processor_t \<Rightarrow> (fatal + 'w word processor_t) option" where
  "step a ld g n noisy p =
    (if \<not> run p then Some (Inr p)
     else (case step_loop a ld g n noisy 0 p of
             None \<Rightarrow> None
           | Some (Fatal d) \<Rightarrow> Some (Inl d)
           | Some (Halted p') \<Rightarrow> Some (Inr p')
           | Some (Break i p') \<Rightarrow> Some (Inr (timer_update a i p'))))"

section \<open>Auxiliary notions for the proofs\<close>

text \<open>
  The bits that \<^verbatim>\<open>set_sr\<close> clears in the value written, and the value that
  \<^verbatim>\<open>take_trap\<close> writes for a status register \<open>s\<close>. Both only name an expression
  of the functions above.
\<close>

definition sr_cleared :: "params \<Rightarrow> 32 word" where
  "sr_cleared a =
     SR_ZERO a OR (if RISCV_ENABLE_64BIT a then 0 else SR_SX a OR SR_UX a)
       OR (if RISCV_ENABLE_FPU a then 0 else SR_EF a)
       OR (if RISCV_ENABLE_RVC a then 0 else SR_EC a)
       OR (if RISCV_ENABLE_VEC a then 0 else SR_EV a)"

definition trap_sr :: "params \<Rightarrow> 32 word \<Rightarrow> 32 word" where
  "trap_sr a s = (((s AND NOT (SR_ET a)) OR SR_S a) AND NOT (SR_PS a)) OR
                  (if s AND SR_S a \<noteq> 0 then SR_PS a else 0)"

text \<open>
  The test of \<^verbatim>\<open>DECLARE_INSN\<close> in \<^verbatim>\<open>initialize_dispatch_table\<close>: the entry
  \<open>e\<close> is a candidate for slot \<open>i\<close>.
\<close>

definition candidate :: "params \<Rightarrow> nat \<Rightarrow> 'f insn_chain_t \<Rightarrow> bool" where
  "candidate a i e \<longleftrightarrow>
     word_of_nat i AND mask_bits e =
       opcode e AND mask_bits e AND word_of_nat (DISPATCH_TABLE_SIZE a - 1)"

section \<open>An instance of the constants\<close>

text \<open>
  One assignment of the header constants, with every optional capability disabled and a
  four-slot dispatch table, on which the definitions can be evaluated.
\<close>

definition example_consts :: params where
  "example_consts =
    \<lparr>SR_ET = 0x1, SR_EF = 0x2, SR_EV = 0x4, SR_EC = 0x8, SR_PS = 0x10, SR_S = 0x20,
     SR_UX = 0x40, SR_SX = 0x80, SR_IM = 0xFF0000, SR_VM = 0x1000000,
     SR_ZERO = 0xFE00FF00, SR_IM_SHIFT = 16, FSR_ZERO = 0xFFFFFF00,
     CAUSE_EXCCODE = 0x1F, CAUSE_EXCCODE_SHIFT = 0, CAUSE_IP = 0xFF00, CAUSE_IP_SHIFT = 8,
     TIMER_IRQ = 7, IPI_IRQ = 5, NUM_TRAPS = 16, trap_interrupt = 5,
     trap_illegal_instruction = 2, MAX_UTS = 2048, DISPATCH_TABLE_SIZE = 4,
     RISCV_ENABLE_64BIT = False, RISCV_ENABLE_FPU = False, RISCV_ENABLE_RVC = False,
     RISCV_ENABLE_VEC = False\<rparr>"

definition example_mmu :: mmu_t where
  "example_mmu = \<lparr>vm_enabled = False, supervisor = False, tlb_flushes = 0, mmu_badvaddr = 0\<rparr>"

definition example_processor :: "32 word processor_t" where
  "example_processor =
    \<lparr>run = True, XPR = (\<lambda>i. word_of_nat i), FPR = (\<lambda>_. 1), pc = 0x2000, evec = 0x100,
     epc = 0, badvaddr = 0, cause = 0, pcr_k0 = 0, pcr_k1 = 0, tohost = 0, fromhost = 0,
     count = 10, compare = 20, cycle = 10, sr = 0x21, fsr = 0, xprlen = 32,
     vecbanks = 0xff, vecbanks_count = 8, utidx = - 1, vlmax = 32, vl = 0,
     nxfpr_bank = 256, nxpr_use = 1, nfpr_use = 1, uts = (\<lambda>_. Some 0), id_core = 3,
     mmu = example_mmu\<rparr>"

text \<open>
  A memory that holds the word \<open>w\<close> at every address, a handler that writes 7 to
  register 0 and returns the next sequential program counter, and the dispatch state
  built for the instance from an opcode table with that one instruction.
\<close>

definition fetches :: "insn_t \<Rightarrow> load_insn_t" where
  "fetches w m addr rvc = Returns w m"

definition writes_x0 :: "32 word insn_handler" where
  "writes_x0 p insn npc = Returns (npc + 4) (p\<lparr>XPR := (XPR p)(0 := 7)\<rparr>)"

definition example_dispatch :: "32 word insn_handler dispatch_state" where
  "example_dispatch =
    initialize_dispatch_table example_consts
      [\<lparr>func = writes_x0, opcode = 3, mask_bits = 3\<rparr>] (static_init example_consts)"

text \<open>
  The start of the specification's scenario: the processor \<open>p0\<close> is reset,
  \<^verbatim>\<open>compare\<close> is set to 0 and the trap vector to \<open>0x100\<close>, traps are enabled on
  top of the supervisor mode that \<^verbatim>\<open>reset\<close> leaves, and the run flag is set.
\<close>

definition scenario_start ::
  "params \<Rightarrow> ('w::len) word processor_t \<Rightarrow> 'w word processor_t" where
  "scenario_start a p0 =
    (set_sr a (sr (reset a p0) OR SR_ET a)
       ((reset a p0)\<lparr>compare := 0, evec := 0x100\<rparr>))\<lparr>run := True\<rparr>"

section \<open>Status-register writes\<close>

text \<open>
  C5. Whatever value is written with \<^verbatim>\<open>set_sr\<close>, the stored status register has
  every reserved bit (\<^verbatim>\<open>SR_ZERO\<close>) clear, and the enable bits of each capability
  that is switched off at build time (64-bit: \<^verbatim>\<open>SR_SX\<close>, \<^verbatim>\<open>SR_UX\<close>; floating
  point: \<^verbatim>\<open>SR_EF\<close>; compressed: \<^verbatim>\<open>SR_EC\<close>; vector: \<^verbatim>\<open>SR_EV\<close>) clear.
\<close>

theorem set_sr_reserved_and_disabled_bits_zero:
  "sr (set_sr a val p) AND SR_ZERO a = 0 \<and>
   (\<not> RISCV_ENABLE_64BIT a \<longrightarrow> sr (set_sr a val p) AND (SR_SX a OR SR_UX a) = 0) \<and>
   (\<not> RISCV_ENABLE_FPU a \<longrightarrow> sr (set_sr a val p) AND SR_EF a = 0) \<and>
   (\<not> RISCV_ENABLE_RVC a \<longrightarrow> sr (set_sr a val p) AND SR_EC a = 0) \<and>
   (\<not> RISCV_ENABLE_VEC a \<longrightarrow> sr (set_sr a val p) AND SR_EV a = 0)"
  by (simp add: set_sr_def Let_def bit_eq_iff bit_simps)

text \<open>
  C5 at a concrete write: all 32 bits written on a build with every capability disabled.
\<close>

theorem set_sr_reserved_and_disabled_bits_zero_witness:
  "\<not> RISCV_ENABLE_64BIT example_consts \<and> \<not> RISCV_ENABLE_FPU example_consts \<and>
   \<not> RISCV_ENABLE_RVC example_consts \<and> \<not> RISCV_ENABLE_VEC example_consts \<and>
   sr (set_sr example_consts 0xFFFFFFFF example_processor) AND SR_ZERO example_consts = 0 \<and>
   sr (set_sr example_consts 0xFFFFFFFF example_processor) AND
     (SR_SX example_consts OR SR_UX example_consts) = 0 \<and>
   sr (set_sr example_consts 0xFFFFFFFF example_processor) AND SR_EF example_consts = 0 \<and>
   sr (set_sr example_consts 0xFFFFFFFF example_processor) AND SR_EC example_consts = 0 \<and>
   sr (set_sr example_consts 0xFFFFFFFF example_processor) AND SR_EV example_consts = 0"
  using set_sr_reserved_and_disabled_bits_zero [of example_consts "0xFFFFFFFF" example_processor]
  by (simp add: example_consts_def)

section \<open>Vector length\<close>

lemma c_int_id: "is_c_int k \<Longrightarrow> c_int k = k"
  by (simp add: is_c_int_def c_int_def)

lemma c_int_range: "is_c_int (c_int k)"
proof -
  have "0 \<le> (k + 2 ^ 31) mod (2 ^ 32 :: int)" "(k + 2 ^ 31) mod (2 ^ 32 :: int) < 2 ^ 32"
    by simp_all
  then show ?thesis
    by (simp add: is_c_int_def c_int_def)
qed

lemma div_le_self_int:
  fixes b d :: int
  assumes "0 \<le> b" and "0 < d"
  shows "0 \<le> b div d" and "b div d \<le> b"
proof -
  show "0 \<le> b div d"
    using assms by (simp add: pos_imp_zdiv_nonneg_iff)
  have "b div d \<le> b div 1"
    by (rule zdiv_mono2) (use assms in simp_all)
  then show "b div d \<le> b" by simp
qed

lemma sdiv_pos_div:
  fixes b d :: int
  shows "0 \<le> b \<Longrightarrow> 0 < d \<Longrightarrow> b sdiv d = b div d"
  by (simp add: signed_divide_int_def sgn_if)

lemma sdiv_neg_div:
  fixes b d :: int
  shows "b < 0 \<Longrightarrow> 0 < d \<Longrightarrow> b sdiv d = - ((- b) div d)"
  by (simp add: signed_divide_int_def sgn_if)

lemma sdiv_is_c_int:
  fixes b d :: int
  assumes b: "is_c_int b" and d: "0 < d"
  shows "is_c_int (b sdiv d)"
proof (cases "0 \<le> b")
  case True
  then have "0 \<le> b div d" "b div d \<le> b"
    using d by (simp_all add: div_le_self_int)
  with b True d show ?thesis
    unfolding is_c_int_def sdiv_pos_div [OF True d] by linarith
next
  case False
  then have n: "b < 0" by simp
  then have "0 \<le> (- b) div d" "(- b) div d \<le> - b"
    using d by (simp_all add: div_le_self_int)
  with b n show ?thesis
    unfolding is_c_int_def sdiv_neg_div [OF n d] by linarith
qed

text \<open>
  Where an operation of \<^verbatim>\<open>vcfg\<close> overflows, the value wraps: eight banks of
  \<open>0x40000000\<close> registers give a product of 0, and a usage count of
  \<open>0x7FFFFFFF + 1\<close> is negative, so that the first branch is taken.
\<close>

lemma vcfg_overflow_wraps:
  "vlmax (vcfg example_consts
     (example_processor\<lparr>nxfpr_bank := 0x40000000, nxpr_use := 0, nfpr_use := 0\<rparr>)) = 0"
  "vlmax (vcfg example_consts
     (example_processor\<lparr>nxpr_use := 0x7FFFFFFF, nfpr_use := 1\<rparr>)) = 2048"
  by (simp_all add: vcfg_def c_int_def Let_def example_consts_def example_processor_def)

text \<open>
  C7. Let the bank width be a C \<^verbatim>\<open>int\<close> and let neither the sum
  \<open>u = nxpr_use + nfpr_use\<close> nor the product that \<^verbatim>\<open>vcfg\<close> forms overflow the C
  \<^verbatim>\<open>int\<close>. Then \<^verbatim>\<open>vcfg\<close> stores as maximum vector length the bank width times
  the lane count when \<open>u < 2\<close>, and otherwise the bank width divided by \<open>u - 1\<close>
  (C integer division, which is the floor for a bank width that is not negative) times
  the lane count, in both cases clamped to \<^verbatim>\<open>MAX_UTS\<close>; and \<^verbatim>\<open>setvl\<close> with a
  request above the maximum stores the maximum, and never stores more than the maximum.
\<close>

theorem vcfg_vlmax_setvl_clamp:
  assumes bank: "is_c_int (nxfpr_bank p)"
    and sum: "is_c_int (nxpr_use p + nfpr_use p)"
    and prod: "is_c_int (if nxpr_use p + nfpr_use p < 2
                 then nxfpr_bank p * vecbanks_count p
                 else (nxfpr_bank p sdiv (nxpr_use p + nfpr_use p - 1)) * vecbanks_count p)"
  shows
  "(let u = nxpr_use p + nfpr_use p in
     (u < 2 \<longrightarrow> vlmax (vcfg a p) = min (nxfpr_bank p * vecbanks_count p) (MAX_UTS a)) \<and>
     (\<not> u < 2 \<longrightarrow>
        vlmax (vcfg a p) = min ((nxfpr_bank p sdiv (u - 1)) * vecbanks_count p) (MAX_UTS a) \<and>
        (0 \<le> nxfpr_bank p \<longrightarrow> nxfpr_bank p sdiv (u - 1) = nxfpr_bank p div (u - 1)))) \<and>
   vlmax (vcfg a p) \<le> MAX_UTS a \<and>
   (vlmax q < vlapp \<longrightarrow> vl (setvl vlapp q) = vlmax q) \<and>
   vl (setvl vlapp q) \<le> vlmax q"
proof -
  let ?u = "nxpr_use p + nfpr_use p"
  have u: "c_int ?u = ?u"
    by (rule c_int_id [OF sum])
  have small: "vlmax (vcfg a p) = min (nxfpr_bank p * vecbanks_count p) (MAX_UTS a)"
    if "?u < 2"
    using that prod by (simp add: vcfg_def Let_def u c_int_id)
  have large: "vlmax (vcfg a p) =
      min ((nxfpr_bank p sdiv (?u - 1)) * vecbanks_count p) (MAX_UTS a)"
    and floor: "0 \<le> nxfpr_bank p \<longrightarrow> nxfpr_bank p sdiv (?u - 1) = nxfpr_bank p div (?u - 1)"
    if "\<not> ?u < 2"
  proof -
    from that have pos: "0 < ?u - 1" by simp
    from sum pos have "is_c_int (?u - 1)"
      unfolding is_c_int_def by linarith
    then have d: "c_int (?u - 1) = ?u - 1"
      by (rule c_int_id)
    have q: "c_int (nxfpr_bank p sdiv (?u - 1)) = nxfpr_bank p sdiv (?u - 1)"
      by (rule c_int_id [OF sdiv_is_c_int [OF bank pos]])
    from that prod have "c_int ((nxfpr_bank p sdiv (?u - 1)) * vecbanks_count p) =
        (nxfpr_bank p sdiv (?u - 1)) * vecbanks_count p"
      by (simp add: c_int_id)
    with that show "vlmax (vcfg a p) =
        min ((nxfpr_bank p sdiv (?u - 1)) * vecbanks_count p) (MAX_UTS a)"
      by (simp add: vcfg_def Let_def u d q)
    show "0 \<le> nxfpr_bank p \<longrightarrow> nxfpr_bank p sdiv (?u - 1) = nxfpr_bank p div (?u - 1)"
      using pos by (simp add: sdiv_pos_div)
  qed
  have clamp: "vlmax (vcfg a p) \<le> MAX_UTS a"
    by (simp add: vcfg_def Let_def)
  have setvl: "vlmax q < vlapp \<longrightarrow> vl (setvl vlapp q) = vlmax q" "vl (setvl vlapp q) \<le> vlmax q"
    by (simp_all add: setvl_def)
  show ?thesis
    unfolding Let_def using small large floor clamp setvl by blast
qed

text \<open>
  C7 on the specification's scenario: one integer and one floating register per lane with
  a bank width of 256 and 8 lanes give 2048, the lane-array capacity of the instance.
\<close>

theorem vcfg_vlmax_setvl_clamp_witness:
  "is_c_int (nxfpr_bank example_processor) \<and>
   is_c_int (nxpr_use example_processor + nfpr_use example_processor) \<and>
   is_c_int (if nxpr_use example_processor + nfpr_use example_processor < 2
             then nxfpr_bank example_processor * vecbanks_count example_processor
             else (nxfpr_bank example_processor sdiv
                     (nxpr_use example_processor + nfpr_use example_processor - 1)) *
                  vecbanks_count example_processor) \<and>
   \<not> nxpr_use example_processor + nfpr_use example_processor < 2 \<and>
   0 \<le> nxfpr_bank example_processor \<and>
   vlmax (vcfg example_consts example_processor) = 2048 \<and>
   vlmax (vcfg example_consts example_processor) < 5000 \<and>
   vl (setvl 5000 (vcfg example_consts example_processor)) = 2048"
proof -
  have h: "is_c_int (nxfpr_bank example_processor)"
    "is_c_int (nxpr_use example_processor + nfpr_use example_processor)"
    "is_c_int (if nxpr_use example_processor + nfpr_use example_processor < 2
             then nxfpr_bank example_processor * vecbanks_count example_processor
             else (nxfpr_bank example_processor sdiv
                     (nxpr_use example_processor + nfpr_use example_processor - 1)) *
                  vecbanks_count example_processor)"
    by (simp_all add: is_c_int_def example_processor_def signed_divide_int_def)
  have v: "nxpr_use example_processor + nfpr_use example_processor = 2"
    "nxfpr_bank example_processor = 256" "vecbanks_count example_processor = 8"
    "MAX_UTS example_consts = 2048"
    by (simp_all add: example_processor_def example_consts_def)
  from vcfg_vlmax_setvl_clamp [OF h, of example_consts
      "vcfg example_consts example_processor" 5000]
  have "vlmax (vcfg example_consts example_processor) = 2048"
    "vl (setvl 5000 (vcfg example_consts example_processor)) = 2048"
    by (simp_all add: Let_def v signed_divide_int_def)
  with h v show ?thesis
    by simp
qed

text \<open>
  C10. \<^verbatim>\<open>setvl\<close> has no lower bound: a request that does not exceed the maximum,
  negative ones included, is stored unchanged.
\<close>

theorem setvl_no_lower_bound:
  "vlapp \<le> vlmax p \<Longrightarrow> vl (setvl vlapp p) = vlapp"
  by (simp add: setvl_def)

theorem setvl_no_lower_bound_witness:
  "(- 5 :: int) \<le> vlmax example_processor \<and> vl (setvl (- 5) example_processor) = - 5 \<and>
   vl (setvl (- 5) example_processor) < 0"
  using setvl_no_lower_bound [of "- 5" example_processor]
  by (simp add: example_processor_def)

section \<open>Facts about \<^verbatim>\<open>set_sr\<close>\<close>

lemma and_not_if:
  fixes x :: "32 word"
  shows "(if b then x else x AND NOT m) = x AND NOT (if b then 0 else m)"
  by simp

lemma and_not_or:
  fixes x :: "32 word"
  shows "(x AND NOT m) AND NOT k = x AND NOT (m OR k)"
  by (auto simp: bit_eq_iff bit_simps)

lemma sr_set_sr: "sr (set_sr a v p) = v AND NOT (sr_cleared a)"
  unfolding set_sr_def Let_def sr_cleared_def and_not_if
  by (simp only: and_not_or or.assoc) simp

lemma cleared_le:
  "sr_cleared a AND NOT (SR_ZERO a OR SR_SX a OR SR_UX a OR SR_EF a OR SR_EC a OR SR_EV a) = 0"
  unfolding sr_cleared_def
  by (auto simp: bit_eq_iff bit_simps)

lemma set_sr_clear: "v AND m = 0 \<Longrightarrow> sr (set_sr a v p) AND m = 0"
  unfolding sr_set_sr by (auto simp: bit_eq_iff bit_simps)

lemma keeps_aux:
  fixes m :: "32 word"
  shows "m AND k = 0 \<Longrightarrow> c AND NOT k = 0 \<Longrightarrow> (v AND NOT c) AND m = v AND m"
  by (auto simp: bit_eq_iff bit_simps)

lemma set_sr_keeps:
  "m AND (SR_ZERO a OR SR_SX a OR SR_UX a OR SR_EF a OR SR_EC a OR SR_EV a) = 0 \<Longrightarrow>
   sr (set_sr a v p) AND m = v AND m"
  unfolding sr_set_sr by (rule keeps_aux [OF _ cleared_le])

lemma set_sr_fields:
  "pc (set_sr a v p) = pc p" "evec (set_sr a v p) = evec p" "cause (set_sr a v p) = cause p"
  "epc (set_sr a v p) = epc p" "run (set_sr a v p) = run p" "count (set_sr a v p) = count p"
  "compare (set_sr a v p) = compare p" "XPR (set_sr a v p) = XPR p"
  "id_core (set_sr a v p) = id_core p" "cycle (set_sr a v p) = cycle p"
  by (simp_all add: set_sr_def Let_def)

section \<open>Trap delivery\<close>

lemma trap_sr_ET:
  fixes x :: "32 word"
  shows "ET AND S = 0 \<Longrightarrow> ET AND PS = 0 \<Longrightarrow>
   ((((x AND NOT ET) OR S) AND NOT PS) OR (if b then PS else 0)) AND ET = 0"
  by (auto simp: bit_eq_iff bit_simps)

lemma trap_sr_S:
  fixes x :: "32 word"
  shows "S AND PS = 0 \<Longrightarrow>
   ((((x AND NOT ET) OR S) AND NOT PS) OR (if b then PS else 0)) AND S = S"
  by (auto simp: bit_eq_iff bit_simps)

lemma trap_sr_PS:
  fixes x :: "32 word"
  shows "((((x AND NOT ET) OR S) AND NOT PS) OR (if b then PS else 0)) AND PS =
    (if b then PS else 0)"
  by (auto simp: bit_eq_iff bit_simps)

lemma or_and_zero_split:
  fixes x y z :: "32 word"
  shows "(x OR y) AND z = 0 \<longleftrightarrow> x AND z = 0 \<and> y AND z = 0"
  by (auto simp: bit_eq_iff bit_simps)

lemma cause_field:
  fixes c :: "32 word"
  shows "((c AND NOT E) OR x) AND E = x AND E"
  by (auto simp: bit_eq_iff bit_simps)

lemma take_trap_ok:
  "t < NUM_TRAPS a \<Longrightarrow> sr p AND SR_ET a \<noteq> 0 \<Longrightarrow>
   take_trap a t noisy p =
     Inr ((set_sr a (trap_sr a (sr p)) p)
           \<lparr>cause := (cause p AND NOT (CAUSE_EXCCODE a)) OR
                       push_bit (CAUSE_EXCCODE_SHIFT a) (word_of_nat t),
            epc := pc p, pc := evec p,
            badvaddr := get_badvaddr (mmu (set_sr a (trap_sr a (sr p)) p))\<rparr>)"
  by (simp add: take_trap_def demand_def Let_def trap_sr_def set_sr_fields)

lemma take_trap_clears_ET:
  assumes "take_trap a t noisy p = Inr p'"
    and lay: "SR_ET a AND SR_S a = 0" "SR_ET a AND SR_PS a = 0"
  shows "sr p' AND SR_ET a = 0"
proof -
  from assms(1) have ok: "t < NUM_TRAPS a" "sr p AND SR_ET a \<noteq> 0"
    by (auto simp: take_trap_def demand_def split: if_splits)
  have "sr (set_sr a (trap_sr a (sr p)) p) AND SR_ET a = 0"
    unfolding trap_sr_def by (rule set_sr_clear) (rule trap_sr_ET [OF lay])
  with assms(1) show ?thesis
    unfolding take_trap_ok [OF ok] by auto
qed

text \<open>
  C2. Let the header constants be laid out so that \<^verbatim>\<open>SR_S\<close>, \<^verbatim>\<open>SR_PS\<close> and
  \<^verbatim>\<open>SR_ET\<close> are pairwise disjoint, \<^verbatim>\<open>SR_S\<close> and \<^verbatim>\<open>SR_PS\<close> are neither
  reserved nor capability bits, and the code \<open>t\<close> fits the exception-code field of the
  cause register. Then for a trap code \<open>t\<close> in the legal range, delivered while
  \<^verbatim>\<open>SR_ET\<close> is set, \<^verbatim>\<open>take_trap\<close> returns a state in which \<^verbatim>\<open>SR_PS\<close> is set
  exactly when \<^verbatim>\<open>SR_S\<close> was set before, \<^verbatim>\<open>SR_S\<close> is set, \<^verbatim>\<open>SR_ET\<close> is clear,
  \<^verbatim>\<open>epc\<close> is the program counter before the trap, the exception-code field of
  \<^verbatim>\<open>cause\<close> is \<open>t\<close>, and the program counter is \<^verbatim>\<open>evec\<close>.
\<close>

theorem take_trap_delivers:
  fixes p :: "('w::len) word processor_t"
  assumes "t < NUM_TRAPS a" and "sr p AND SR_ET a \<noteq> 0"
    and disjoint: "SR_S a AND SR_PS a = 0" "SR_ET a AND SR_S a = 0" "SR_ET a AND SR_PS a = 0"
    and kept: "(SR_S a OR SR_PS a) AND
       (SR_ZERO a OR SR_SX a OR SR_UX a OR SR_EF a OR SR_EC a OR SR_EV a) = 0"
    and fits: "unat (drop_bit (CAUSE_EXCCODE_SHIFT a)
        (push_bit (CAUSE_EXCCODE_SHIFT a) (word_of_nat t) AND CAUSE_EXCCODE a) :: 32 word) = t"
  shows "\<exists>p'. take_trap a t noisy p = Inr p' \<and>
      sr p' AND SR_PS a = (if sr p AND SR_S a \<noteq> 0 then SR_PS a else 0) \<and>
      sr p' AND SR_S a = SR_S a \<and>
      sr p' AND SR_ET a = 0 \<and>
      epc p' = pc p \<and>
      unat (drop_bit (CAUSE_EXCCODE_SHIFT a) (cause p' AND CAUSE_EXCCODE a)) = t \<and>
      pc p' = evec p"
proof -
  let ?v = "trap_sr a (sr p)"
  let ?all = "SR_ZERO a OR SR_SX a OR SR_UX a OR SR_EF a OR SR_EC a OR SR_EV a"
  from kept have kS: "SR_S a AND ?all = 0" and kPS: "SR_PS a AND ?all = 0"
    by (simp_all only: or_and_zero_split)
  have 1: "sr (set_sr a ?v p) AND SR_PS a = (if sr p AND SR_S a \<noteq> 0 then SR_PS a else 0)"
    unfolding set_sr_keeps [OF kPS] trap_sr_def by (rule trap_sr_PS)
  have 2: "sr (set_sr a ?v p) AND SR_S a = SR_S a"
    unfolding set_sr_keeps [OF kS] trap_sr_def by (rule trap_sr_S [OF disjoint(1)])
  have 3: "sr (set_sr a ?v p) AND SR_ET a = 0"
    unfolding trap_sr_def by (rule set_sr_clear) (rule trap_sr_ET [OF disjoint(2,3)])
  let ?p' = "(set_sr a ?v p)
           \<lparr>cause := (cause p AND NOT (CAUSE_EXCCODE a)) OR
                       push_bit (CAUSE_EXCCODE_SHIFT a) (word_of_nat t),
            epc := pc p, pc := evec p,
            badvaddr := get_badvaddr (mmu (set_sr a ?v p))\<rparr>"
  have "cause ?p' AND CAUSE_EXCCODE a =
      push_bit (CAUSE_EXCCODE_SHIFT a) (word_of_nat t) AND CAUSE_EXCCODE a"
    by (simp add: cause_field)
  then have 4: "unat (drop_bit (CAUSE_EXCCODE_SHIFT a) (cause ?p' AND CAUSE_EXCCODE a)) = t"
    using fits by (simp only:)
  have "take_trap a t noisy p = Inr ?p'"
    by (rule take_trap_ok [OF assms(1,2)])
  moreover have "sr ?p' = sr (set_sr a ?v p)" "epc ?p' = pc p" "pc ?p' = evec p"
    by simp_all
  ultimately show ?thesis
    using 1 2 3 4 by (intro exI [of _ ?p']) (simp only: simp_thms)
qed

text \<open>
  C2 on the instance: an illegal-instruction trap (code 2) taken in supervisor mode with
  traps enabled at program counter \<open>0x2000\<close> and trap vector \<open>0x100\<close>.
\<close>

theorem take_trap_delivers_witness:
  "2 < NUM_TRAPS example_consts \<and>
   sr example_processor AND SR_ET example_consts \<noteq> 0 \<and>
   SR_S example_consts AND SR_PS example_consts = 0 \<and>
   SR_ET example_consts AND SR_S example_consts = 0 \<and>
   SR_ET example_consts AND SR_PS example_consts = 0 \<and>
   (SR_S example_consts OR SR_PS example_consts) AND
     (SR_ZERO example_consts OR SR_SX example_consts OR SR_UX example_consts OR
      SR_EF example_consts OR SR_EC example_consts OR SR_EV example_consts) = 0 \<and>
   unat (drop_bit (CAUSE_EXCCODE_SHIFT example_consts)
     (push_bit (CAUSE_EXCCODE_SHIFT example_consts) (word_of_nat 2) AND
      CAUSE_EXCCODE example_consts) :: 32 word) = 2 \<and>
   (\<exists>p'. take_trap example_consts 2 False example_processor = Inr p' \<and>
      sr p' AND SR_PS example_consts =
        (if sr example_processor AND SR_S example_consts \<noteq> 0
         then SR_PS example_consts else 0) \<and>
      sr p' AND SR_S example_consts = SR_S example_consts \<and>
      sr p' AND SR_ET example_consts = 0 \<and>
      epc p' = pc example_processor \<and>
      unat (drop_bit (CAUSE_EXCCODE_SHIFT example_consts)
              (cause p' AND CAUSE_EXCCODE example_consts)) = 2 \<and>
      pc p' = evec example_processor)"
proof -
  have h: "2 < NUM_TRAPS example_consts"
    "sr example_processor AND SR_ET example_consts \<noteq> 0"
    "SR_S example_consts AND SR_PS example_consts = 0"
    "SR_ET example_consts AND SR_S example_consts = 0"
    "SR_ET example_consts AND SR_PS example_consts = 0"
    "(SR_S example_consts OR SR_PS example_consts) AND
     (SR_ZERO example_consts OR SR_SX example_consts OR SR_UX example_consts OR
      SR_EF example_consts OR SR_EC example_consts OR SR_EV example_consts) = 0"
    "unat (drop_bit (CAUSE_EXCCODE_SHIFT example_consts)
     (push_bit (CAUSE_EXCCODE_SHIFT example_consts) (word_of_nat 2) AND
      CAUSE_EXCCODE example_consts) :: 32 word) = 2"
    by (simp_all add: example_consts_def example_processor_def)
  show ?thesis
    using h take_trap_delivers [OF h, of False] by (intro conjI)
qed

text \<open>
  C8, as the code has it. A trap code outside the legal range aborts the process with a
  diagnostic that carries the code only; a trap in the legal range delivered while
  \<^verbatim>\<open>SR_ET\<close> is clear aborts it with a diagnostic that carries the core, the trap
  and the program counter. In both cases \<^verbatim>\<open>take_trap\<close> yields no processor state:
  nothing is saved and nothing is redirected.
\<close>

theorem take_trap_fatal:
  "(\<not> t < NUM_TRAPS a \<longrightarrow> take_trap a t noisy p = Inl (Bad_trap_number (int t))) \<and>
   (t < NUM_TRAPS a \<and> sr p AND SR_ET a = 0 \<longrightarrow>
      take_trap a t noisy p = Inl (Error_mode (id_core p) t (pc p)))"
  by (simp add: take_trap_def demand_def)

theorem take_trap_fatal_witness:
  "\<not> 99 < NUM_TRAPS example_consts \<and>
   take_trap example_consts 99 True example_processor = Inl (Bad_trap_number 99) \<and>
   2 < NUM_TRAPS example_consts \<and>
   sr (example_processor\<lparr>sr := 0x20\<rparr>) AND SR_ET example_consts = 0 \<and>
   take_trap example_consts 2 True (example_processor\<lparr>sr := 0x20\<rparr>) =
     Inl (Error_mode 3 2 0x2000)"
  using take_trap_fatal [of 99 example_consts True example_processor]
    take_trap_fatal [of 2 example_consts True "example_processor\<lparr>sr := 0x20\<rparr>"]
  by (simp add: example_consts_def example_processor_def)

text \<open>
  C8 as stated fails for the out-of-range code: on two cores that differ only in their
  identifier the diagnostic is the same, so it does not identify the core.
\<close>

theorem take_trap_fatal_counterexample:
  "take_trap example_consts 99 False (example_processor\<lparr>id_core := 1\<rparr>) =
     Inl (Bad_trap_number 99) \<and>
   take_trap example_consts 99 False (example_processor\<lparr>id_core := 2\<rparr>) =
     Inl (Bad_trap_number 99)"
  by (simp add: take_trap_def demand_def example_consts_def)

section \<open>Reset\<close>

text \<open>
  C9, as the code has it. After \<^verbatim>\<open>reset\<close> the run flag is clear; the integer and
  floating-point registers, the program counter, \<^verbatim>\<open>evec\<close>, \<^verbatim>\<open>epc\<close>,
  \<^verbatim>\<open>badvaddr\<close>, \<^verbatim>\<open>cause\<close>, the two kernel registers, \<^verbatim>\<open>tohost\<close>,
  \<^verbatim>\<open>fromhost\<close>, \<^verbatim>\<open>count\<close>, \<^verbatim>\<open>compare\<close>, \<^verbatim>\<open>cycle\<close>, \<^verbatim>\<open>fsr\<close> and
  the vector length are zero; every lane pointer is null. The status register is what
  \<^verbatim>\<open>set_sr\<close> keeps of \<^verbatim>\<open>SR_S | SR_SX\<close>, and the vector configuration holds its
  defaults: \<^verbatim>\<open>vecbanks = 0xff\<close>, \<^verbatim>\<open>vecbanks_count = 8\<close>, \<^verbatim>\<open>utidx = -1\<close>,
  \<^verbatim>\<open>vlmax = 32\<close>, \<^verbatim>\<open>nxfpr_bank = 256\<close>, \<^verbatim>\<open>nxpr_use = nfpr_use = 32\<close>.
\<close>

theorem reset_state:
  fixes p :: "('w::len) word processor_t"
  shows "\<not> run (reset a p) \<and>
   (\<forall>i. XPR (reset a p) i = 0) \<and> (\<forall>i. FPR (reset a p) i = 0) \<and>
   pc (reset a p) = 0 \<and> evec (reset a p) = 0 \<and> epc (reset a p) = 0 \<and>
   badvaddr (reset a p) = 0 \<and> cause (reset a p) = 0 \<and>
   pcr_k0 (reset a p) = 0 \<and> pcr_k1 (reset a p) = 0 \<and>
   tohost (reset a p) = 0 \<and> fromhost (reset a p) = 0 \<and>
   count (reset a p) = 0 \<and> compare (reset a p) = 0 \<and> cycle (reset a p) = 0 \<and>
   fsr (reset a p) = 0 \<and> vl (reset a p) = 0 \<and>
   (\<forall>i. int i < MAX_UTS a \<longrightarrow> uts (reset a p) i = None) \<and>
   sr (reset a p) = (SR_S a OR SR_SX a) AND NOT (sr_cleared a) \<and>
   vecbanks (reset a p) = 0xff \<and> vecbanks_count (reset a p) = 8 \<and>
   utidx (reset a p) = - 1 \<and> vlmax (reset a p) = 32 \<and> nxfpr_bank (reset a p) = 256 \<and>
   nxpr_use (reset a p) = 32 \<and> nfpr_use (reset a p) = 32"
proof -
  have "sr (reset a p) = sr (set_sr a (SR_S a OR SR_SX a)
      (p\<lparr>run := False, XPR := (\<lambda>_. 0), FPR := (\<lambda>_. 0),
                 pc := 0, evec := 0, epc := 0, badvaddr := 0, cause := 0,
                 pcr_k0 := 0, pcr_k1 := 0, tohost := 0, fromhost := 0,
                 count := 0, compare := 0, cycle := 0\<rparr>))"
    by (simp add: reset_def Let_def set_fsr_def)
  then have "sr (reset a p) = (SR_S a OR SR_SX a) AND NOT (sr_cleared a)"
    by (simp only: sr_set_sr)
  then show ?thesis
    by (simp add: reset_def Let_def set_fsr_def set_sr_def)
qed

theorem reset_state_witness:
  "int 7 < MAX_UTS example_consts \<and>
   uts example_processor 7 = Some 0 \<and>
   uts (reset example_consts example_processor) 7 = None \<and>
   \<not> run (reset example_consts example_processor) \<and>
   XPR (reset example_consts example_processor) 5 = 0 \<and>
   count (reset example_consts example_processor) = 0"
  using reset_state [of example_consts example_processor]
  by (simp add: example_consts_def example_processor_def)

text \<open>
  C9 as stated fails: after \<^verbatim>\<open>reset\<close> the status register of the instance holds
  \<^verbatim>\<open>SR_S\<close>, and the vector configuration is not zero.
\<close>

theorem reset_state_counterexample:
  "sr (reset example_consts example_processor) = 0x20 \<and>
   vlmax (reset example_consts example_processor) = 32 \<and>
   vecbanks_count (reset example_consts example_processor) = 8 \<and>
   nxfpr_bank (reset example_consts example_processor) = 256 \<and>
   nxpr_use (reset example_consts example_processor) = 32 \<and>
   nfpr_use (reset example_consts example_processor) = 32 \<and>
   utidx (reset example_consts example_processor) = - 1"
  by (simp add: reset_def set_sr_def set_fsr_def Let_def example_consts_def)

section \<open>The timer interrupt\<close>

lemma unat_add_of_nat:
  "unat (x + word_of_nat i :: 'w::len word) = (unat x + i) mod 2 ^ LENGTH('w)"
  by (simp add: unat_word_ariths unat_of_nat mod_add_right_eq)

lemma unat_ucast_up64:
  assumes "LENGTH('w::len) \<le> 64"
  shows "unat (ucast (x :: 'w word) :: 64 word) = unat x"
proof -
  have "unat x < 2 ^ LENGTH('w)" by (rule unsigned_less)
  also have "(2::nat) ^ LENGTH('w) \<le> 2 ^ 64"
    by (rule power_increasing) (use assms in simp_all)
  finally have "unat x < 2 ^ LENGTH(64)" by simp
  then show ?thesis by (simp only: unsigned_ucast_eq take_bit_nat_eq_self)
qed

lemma unat_max_word: "unat (- 1 :: 'w::len word) = 2 ^ LENGTH('w) - 1"
  by (simp add: unsigned_minus_1_eq_mask mask_eq_exp_minus_1)

text \<open>The overflow test of \<^verbatim>\<open>step\<close>, computed in 64 bits, read on the naturals.\<close>

lemma overflow_test:
  fixes old :: "'w::len word"
  assumes w: "LENGTH('w) \<le> 64" and i: "i < 2 ^ LENGTH('w)"
  shows "(ucast old :: 64 word) > ucast (- 1 :: 'w word) - word_of_nat i
     \<longleftrightarrow> 2 ^ LENGTH('w) \<le> unat old + i"
proof -
  have le: "(2::nat) ^ LENGTH('w) \<le> 2 ^ 64"
    by (rule power_increasing) (use w in simp_all)
  have "i < 2 ^ LENGTH(64)" using i le by simp
  then have ui: "unat (word_of_nat i :: 64 word) = i"
    by (simp only: unat_of_nat mod_less)
  have um: "unat (ucast (- 1 :: 'w word) :: 64 word) = 2 ^ LENGTH('w) - 1"
    by (simp only: unat_ucast_up64 [OF w] unat_max_word)
  have "(word_of_nat i :: 64 word) \<le> ucast (- 1 :: 'w word)"
    unfolding word_le_nat_alt ui um using i by simp
  then have "unat (ucast (- 1 :: 'w word) - word_of_nat i :: 64 word) = 2 ^ LENGTH('w) - 1 - i"
    by (simp only: unat_sub ui um)
  moreover have "unat old < 2 ^ LENGTH('w)" by (rule unsigned_less)
  ultimately show ?thesis
    unfolding word_less_nat_alt unat_ucast_up64 [OF w] using i by linarith
qed

lemma timer_cond:
  fixes old cmp :: "'w::len word"
  assumes w: "LENGTH('w) \<le> 64" and i: "i < 2 ^ LENGTH('w)"
  shows "(old < cmp \<and> (old + word_of_nat i \<ge> cmp \<or>
            (ucast old :: 64 word) > ucast (- 1 :: 'w word) - word_of_nat i))
     \<longleftrightarrow> unat old < unat cmp \<and> unat cmp \<le> unat old + i"
proof -
  have c: "unat cmp < 2 ^ LENGTH('w)" by (rule unsigned_less)
  have ov: "(ucast (- 1 :: 'w word) - word_of_nat i < (ucast old :: 64 word))
      \<longleftrightarrow> 2 ^ LENGTH('w) \<le> unat old + i"
    by (rule overflow_test [OF w i])
  have lhs: "(old < cmp \<and> (old + word_of_nat i \<ge> cmp \<or>
            (ucast old :: 64 word) > ucast (- 1 :: 'w word) - word_of_nat i))
     \<longleftrightarrow> unat old < unat cmp \<and>
        (unat cmp \<le> (unat old + i) mod 2 ^ LENGTH('w) \<or> 2 ^ LENGTH('w) \<le> unat old + i)"
    by (simp only: ov) (simp only: word_less_nat_alt word_le_nat_alt unat_add_of_nat)
  show ?thesis
  proof (cases "unat old + i < 2 ^ LENGTH('w)")
    case True
    then have "(unat old + i) mod 2 ^ LENGTH('w) = unat old + i" by simp
    with True show ?thesis unfolding lhs by auto
  next
    case False
    with c have "unat cmp \<le> unat old + i" by linarith
    with False show ?thesis unfolding lhs by auto
  qed
qed

lemma crossing_iff:
  fixes old cmp :: "'w::len word"
  assumes i: "i < 2 ^ LENGTH('w)"
    and nowrap: "old < cmp \<or> unat old + i < 2 ^ LENGTH('w)"
  shows "(\<exists>k\<in>{1..i}. old + word_of_nat k = cmp) \<longleftrightarrow> unat old < unat cmp \<and> unat cmp \<le> unat old + i"
proof
  assume "\<exists>k\<in>{1..i}. old + word_of_nat k = cmp"
  then obtain k where k: "1 \<le> k" "k \<le> i" and e: "old + word_of_nat k = cmp" by auto
  from e have m: "(unat old + k) mod 2 ^ LENGTH('w) = unat cmp"
    by (simp add: unat_add_of_nat [symmetric])
  have c: "unat cmp < 2 ^ LENGTH('w)" by (rule unsigned_less)
  show "unat old < unat cmp \<and> unat cmp \<le> unat old + i"
  proof (cases "unat old + k < 2 ^ LENGTH('w)")
    case True
    with m k show ?thesis by simp
  next
    case False
    with k have "\<not> unat old + i < 2 ^ LENGTH('w)" by simp
    with nowrap have "old < cmp" by simp
    then have "unat old < unat cmp" by (simp add: word_less_nat_alt)
    with False c k show ?thesis by linarith
  qed
next
  assume a: "unat old < unat cmp \<and> unat cmp \<le> unat old + i"
  let ?k = "unat cmp - unat old"
  have "?k \<in> {1..i}" using a by auto
  moreover have "old + word_of_nat ?k = cmp"
    using a by (simp add: word_unat_eq_iff unat_add_of_nat)
  ultimately show "\<exists>k\<in>{1..i}. old + word_of_nat k = cmp" by blast
qed


lemma step_break:
  "run p \<Longrightarrow> step_loop a ld g n noisy 0 p = Some (Break i p') \<Longrightarrow>
   step a ld g n noisy p = Some (Inr (timer_update a i p'))"
  by (simp add: step_def)

lemma timer_update_eq:
  "timer_update a i p =
    (if count p < compare p \<and>
           (count p + word_of_nat i \<ge> compare p \<or>
            (ucast (count p) :: 64 word) > ucast (- 1 :: 'w word) - word_of_nat i)
     then p\<lparr>cycle := cycle p + word_of_nat i, count := count p + word_of_nat i,
            cause := cause p OR push_bit (TIMER_IRQ a + CAUSE_IP_SHIFT a) 1\<rparr>
     else p\<lparr>cycle := cycle p + word_of_nat i, count := count p + word_of_nat i\<rparr>)"
  for p :: "('w::len) word processor_t"
  unfolding timer_update_def Let_def by (cases "count p < compare p") simp_all

lemma or_and_same:
  fixes c :: "32 word"
  shows "c AND b = b \<Longrightarrow> (c OR b) AND b = b" "(c OR b) AND b = b"
  by (auto simp: bit_eq_iff bit_simps)

text \<open>
  The end of \<^verbatim>\<open>step\<close> advances the counter by \<open>i\<close>, changes \<^verbatim>\<open>cause\<close> at most
  by setting the timer interrupt-pending bit, and never clears that bit. For a counter
  of at most 64 bits and \<open>i\<close> not above the largest counter value, it sets the bit
  exactly when the counter starts below \<^verbatim>\<open>compare\<close> and one of its \<open>i\<close> values
  during the batch (modulo the counter width) is \<^verbatim>\<open>compare\<close>.
\<close>

lemma timer_update_count:
  "count (timer_update a i p) = count p + word_of_nat i"
  "compare (timer_update a i p) = compare p"
  "cycle (timer_update a i p) = cycle p + word_of_nat i"
  unfolding timer_update_eq by simp_all

lemma timer_update_keeps_pending:
  "cause (timer_update a i p) = cause p \<or>
   cause (timer_update a i p) = cause p OR push_bit (TIMER_IRQ a + CAUSE_IP_SHIFT a) 1"
  "cause p AND push_bit (TIMER_IRQ a + CAUSE_IP_SHIFT a) 1 =
     push_bit (TIMER_IRQ a + CAUSE_IP_SHIFT a) 1 \<Longrightarrow>
   cause (timer_update a i p) AND push_bit (TIMER_IRQ a + CAUSE_IP_SHIFT a) 1 =
     push_bit (TIMER_IRQ a + CAUSE_IP_SHIFT a) 1"
  unfolding timer_update_eq by (simp_all add: or_and_same)

lemma timer_update_pending:
  fixes p :: "('w::len) word processor_t"
  assumes w: "LENGTH('w) \<le> 64" and i: "i < 2 ^ LENGTH('w)"
  shows "cause (timer_update a i p) =
       (if count p < compare p \<and> (\<exists>k\<in>{1..i}. count p + word_of_nat k = compare p)
        then cause p OR push_bit (TIMER_IRQ a + CAUSE_IP_SHIFT a) 1 else cause p)"
proof -
  have "(count p < compare p \<and> (\<exists>k\<in>{1..i}. count p + word_of_nat k = compare p))
      \<longleftrightarrow> unat (count p) < unat (compare p) \<and> unat (compare p) \<le> unat (count p) + i"
  proof (cases "count p < compare p")
    case True
    then show ?thesis
      using crossing_iff [OF i disjI1 [OF True]] by simp
  next
    case False
    then show ?thesis by (simp add: word_less_nat_alt)
  qed
  then have cond: "(count p < compare p \<and>
           (count p + word_of_nat i \<ge> compare p \<or>
            (ucast (count p) :: 64 word) > ucast (- 1 :: 'w word) - word_of_nat i))
      \<longleftrightarrow> (count p < compare p \<and> (\<exists>k\<in>{1..i}. count p + word_of_nat k = compare p))"
    by (simp only: timer_cond [OF w i])
  show ?thesis
    unfolding timer_update_eq cond by auto
qed

lemma crossing_from_above:
  fixes old cmp :: "'w::len word"
  assumes i: "i < 2 ^ LENGTH('w)" and ge: "cmp \<le> old"
  shows "(\<exists>k\<in>{1..i}. old + word_of_nat k = cmp) \<longleftrightarrow>
     2 ^ LENGTH('w) + unat cmp \<le> unat old + i"
proof
  assume "\<exists>k\<in>{1..i}. old + word_of_nat k = cmp"
  then obtain k where k: "1 \<le> k" "k \<le> i" and e: "old + word_of_nat k = cmp" by auto
  from e have m: "(unat old + k) mod 2 ^ LENGTH('w) = unat cmp"
    by (simp add: unat_add_of_nat [symmetric])
  from ge have g: "unat cmp \<le> unat old" by (simp add: word_le_nat_alt)
  have o: "unat old < 2 ^ LENGTH('w)" by (rule unsigned_less)
  have big: "2 ^ LENGTH('w) \<le> unat old + k"
  proof (rule ccontr)
    assume "\<not> 2 ^ LENGTH('w) \<le> unat old + k"
    then have "(unat old + k) mod 2 ^ LENGTH('w) = unat old + k" by simp
    with m g k show False by linarith
  qed
  from o k i have "unat old + k - 2 ^ LENGTH('w) < 2 ^ LENGTH('w)" by linarith
  then have "(unat old + k - 2 ^ LENGTH('w)) mod 2 ^ LENGTH('w) = unat old + k - 2 ^ LENGTH('w)"
    by simp
  moreover have "(unat old + k) mod 2 ^ LENGTH('w) =
      (unat old + k - 2 ^ LENGTH('w)) mod 2 ^ LENGTH('w)"
    using big by (simp add: le_mod_geq)
  ultimately have "unat cmp = unat old + k - 2 ^ LENGTH('w)" using m by simp
  with big k show "2 ^ LENGTH('w) + unat cmp \<le> unat old + i" by linarith
next
  assume a: "2 ^ LENGTH('w) + unat cmp \<le> unat old + i"
  have o: "unat old < 2 ^ LENGTH('w)" by (rule unsigned_less)
  have c: "unat cmp < 2 ^ LENGTH('w)" by (rule unsigned_less)
  let ?k = "2 ^ LENGTH('w) + unat cmp - unat old"
  from a o have "1 \<le> ?k" "?k \<le> i" by linarith+
  then have "?k \<in> {1..i}" by simp
  moreover have "unat old + ?k = 2 ^ LENGTH('w) + unat cmp" using o by linarith
  then have "(unat old + ?k) mod 2 ^ LENGTH('w) = unat cmp" using c by simp
  then have "old + word_of_nat ?k = cmp"
    by (simp only: word_unat_eq_iff unat_add_of_nat)
  ultimately show "\<exists>k\<in>{1..i}. old + word_of_nat k = cmp" by blast
qed

text \<open>
  The batches on which the counter reaches \<^verbatim>\<open>compare\<close> and the bit stays as it was:
  those that start at or above \<^verbatim>\<open>compare\<close>, wrap the counter around and bring it up
  to \<^verbatim>\<open>compare\<close> again.
\<close>

lemma timer_update_misses:
  fixes p :: "('w::len) word processor_t"
  assumes w: "LENGTH('w) \<le> 64" and i: "i < 2 ^ LENGTH('w)"
    and ge: "compare p \<le> count p"
    and wrap: "2 ^ LENGTH('w) + unat (compare p) \<le> unat (count p) + i"
  shows "(\<exists>k\<in>{1..i}. count p + word_of_nat k = compare p) \<and>
     cause (timer_update a i p) = cause p"
proof -
  from ge have "\<not> count p < compare p" by simp
  then have "cause (timer_update a i p) = cause p"
    unfolding timer_update_pending [OF w i] by simp
  with crossing_from_above [OF i ge] wrap show ?thesis by simp
qed

section \<open>Register 0\<close>

lemma execute_insn_zero:
  "execute_insn a ld g noisy p = Returns u p' \<Longrightarrow> XPR p' 0 = 0"
  by (auto simp: execute_insn_def Let_def split: outcome.splits selected.splits)

lemma for_each_zero:
  "for_each a ld g n noisy i p = (j, Returns u p') \<Longrightarrow> i < n \<or> XPR p 0 = 0 \<Longrightarrow> XPR p' 0 = 0"
proof (induction a ld g n noisy i p rule: for_each.induct)
  case (1 a ld g n noisy i p)
  show ?case
  proof (cases "i < n")
    case True
    from "1.prems"(1) True obtain q where q: "execute_insn a ld g noisy p = Returns () q"
      and r: "for_each a ld g n noisy (Suc i) q = (j, Returns u p')"
      by (subst (asm) for_each.simps) (auto split: outcome.splits)
    from q have "XPR q 0 = 0" by (rule execute_insn_zero)
    with "1.IH" [OF True q r] show ?thesis by simp
  next
    case False
    with "1.prems" show ?thesis
      by (subst (asm) for_each.simps) auto
  qed
qed


lemma and_then_Returns:
  "and_then r f = Returns u q \<Longrightarrow> \<exists>v s. r = Returns v s \<and> f s = Returns u q"
  by (auto simp: and_then_def split: outcome.splits)

lemma for_unrolled_zero:
  "for_unrolled a ld g n i p = (j, Returns u p') \<Longrightarrow> (n > 3 \<and> i < n - 3) \<or> XPR p 0 = 0 \<Longrightarrow>
   XPR p' 0 = 0"
proof (induction a ld g n i p rule: for_unrolled.induct)
  case (1 a ld g n i p)
  let ?four = "and_then (and_then (and_then (execute_insn a ld g False p)
                   (execute_insn a ld g False)) (execute_insn a ld g False))
                   (execute_insn a ld g False)"
  show ?case
  proof (cases "n > 3 \<and> i < n - 3")
    case True
    from "1.prems"(1) True obtain q where q: "?four = Returns () q"
      and r: "for_unrolled a ld g n (i + 4) q = (j, Returns u p')"
      by (subst (asm) for_unrolled.simps) (auto split: outcome.splits)
    from and_then_Returns [OF q] obtain s where "execute_insn a ld g False s = Returns () q"
      by auto
    then have "XPR q 0 = 0" by (rule execute_insn_zero)
    with "1.IH" [OF True q r] show ?thesis by simp
  next
    case False
    with "1.prems" show ?thesis
      by (subst (asm) for_unrolled.simps) auto
  qed
qed

text \<open>
  C6. Whatever the handler of an instruction does to the register file, when
  \<^verbatim>\<open>execute_insn\<close> returns (the instruction retires) integer register 0 reads as
  zero; so it does after each of the two \<^verbatim>\<open>for\<close> loops of \<^verbatim>\<open>step\<close> has
  retired at least one instruction and left normally.
\<close>

theorem register_zero_after_retire:
  "(execute_insn a ld g noisy p = Returns u p' \<longrightarrow> XPR p' 0 = 0) \<and>
   (i < n \<and> for_each a ld g n noisy i p = (j, Returns u p') \<longrightarrow> XPR p' 0 = 0) \<and>
   (n > 3 \<and> i < n - 3 \<and> for_unrolled a ld g n i p = (j, Returns u p') \<longrightarrow> XPR p' 0 = 0)"
proof (intro conjI impI)
  assume "execute_insn a ld g noisy p = Returns u p'"
  then show "XPR p' 0 = 0" by (rule execute_insn_zero)
next
  assume "i < n \<and> for_each a ld g n noisy i p = (j, Returns u p')"
  then have "for_each a ld g n noisy i p = (j, Returns u p')" "i < n \<or> XPR p 0 = 0"
    by simp_all
  then show "XPR p' 0 = 0" by (rule for_each_zero)
next
  assume "n > 3 \<and> i < n - 3 \<and> for_unrolled a ld g n i p = (j, Returns u p')"
  then have "for_unrolled a ld g n i p = (j, Returns u p')"
    "(n > 3 \<and> i < n - 3) \<or> XPR p 0 = 0"
    by simp_all
  then show "XPR p' 0 = 0" by (rule for_unrolled_zero)
qed

section \<open>The instance evaluated\<close>

lemma upt4: "[0..<4] = [0, 1, 2, 3]"
  by (simp add: upt_rec)

lemma example_dispatch_eval:
  "example_dispatch =
    \<lparr>dispatch_table = [Some Dispatch, Some Dispatch, Some Dispatch, Some (Insn_func writes_x0)],
     dispatch_chain = [[], [], [], [\<lparr>func = writes_x0, opcode = 3, mask_bits = 3\<rparr>]]\<rparr>"
  by (simp add: example_dispatch_def initialize_dispatch_table_def static_init_def
      declare_insns_def example_consts_def Let_def upt4)

lemma example_select:
  "table_select example_consts example_dispatch 3 = Handler writes_x0"
  "table_select example_consts example_dispatch 7 = Handler writes_x0"
  "table_select example_consts example_dispatch 0 = Illegal_instruction"
  by (simp_all add: table_select_def dispatch_select_def example_dispatch_eval example_consts_def)

lemma example_execute:
  "execute_insn example_consts (fetches 3) example_dispatch noisy p =
     Returns () (p\<lparr>pc := pc p + 4, XPR := (XPR p)(0 := 0)\<rparr>)"
  by (simp add: execute_insn_def fetches_def example_select writes_x0_def Let_def)

lemma example_for_each:
  "for_each example_consts (fetches 3) example_dispatch 2 noisy 0 p =
     (2, Returns () (p\<lparr>pc := pc p + 8, XPR := (XPR p)(0 := 0)\<rparr>))"
  by (simp add: for_each.simps example_execute eval_nat_numeral)

lemma example_for_unrolled:
  "for_unrolled example_consts (fetches 3) example_dispatch 4 0 p =
     (4, Returns () (p\<lparr>pc := pc p + 16, XPR := (XPR p)(0 := 0)\<rparr>))"
  by (simp add: for_unrolled.simps example_execute and_then_def)

text \<open>
  C6 on the instance: the handler writes 7 to register 0, and after
  \<^verbatim>\<open>execute_insn\<close>, after a loop of two and after an unrolled loop of four the
  register reads 0.
\<close>

theorem register_zero_after_retire_witness:
  "(\<exists>q. writes_x0 example_processor 3 (pc example_processor) = Returns 0x2004 q \<and>
        XPR q 0 = 7) \<and>
   (\<exists>p'. execute_insn example_consts (fetches 3) example_dispatch False example_processor =
           Returns () p' \<and> XPR p' 0 = 0) \<and>
   (0 :: nat) < 2 \<and>
   (\<exists>p'. for_each example_consts (fetches 3) example_dispatch 2 False 0 example_processor =
           (2, Returns () p') \<and> XPR p' 0 = 0) \<and>
   (4 :: nat) > 3 \<and> (0 :: nat) < 4 - 3 \<and>
   (\<exists>p'. for_unrolled example_consts (fetches 3) example_dispatch 4 0 example_processor =
           (4, Returns () p') \<and> XPR p' 0 = 0)"
proof -
  let ?p = example_processor
  let ?p1 = "?p\<lparr>pc := pc ?p + 4, XPR := (XPR ?p)(0 := 0)\<rparr>"
  let ?p2 = "?p\<lparr>pc := pc ?p + 8, XPR := (XPR ?p)(0 := 0)\<rparr>"
  let ?p3 = "?p\<lparr>pc := pc ?p + 16, XPR := (XPR ?p)(0 := 0)\<rparr>"
  have e1: "execute_insn example_consts (fetches 3) example_dispatch False ?p = Returns () ?p1"
    by (rule example_execute)
  have e2: "for_each example_consts (fetches 3) example_dispatch 2 False 0 ?p =
      (2, Returns () ?p2)"
    by (rule example_for_each)
  have e3: "for_unrolled example_consts (fetches 3) example_dispatch 4 0 ?p =
      (4, Returns () ?p3)"
    by (rule example_for_unrolled)
  have z1: "XPR ?p1 0 = 0"
    using register_zero_after_retire
      [where a = example_consts and ld = "fetches 3" and g = example_dispatch
        and noisy = False and p = ?p and u = "()" and p' = ?p1] e1
    by (simp only: simp_thms)
  have z2: "XPR ?p2 0 = 0"
    using register_zero_after_retire
      [where a = example_consts and ld = "fetches 3" and g = example_dispatch
        and noisy = False and p = ?p and u = "()" and p' = ?p2 and i = 0 and n = 2 and j = 2] e2
    by simp
  have z3: "XPR ?p3 0 = 0"
    using register_zero_after_retire
      [where a = example_consts and ld = "fetches 3" and g = example_dispatch
        and noisy = False and p = ?p and u = "()" and p' = ?p3 and i = 0 and n = 4 and j = 4] e3
    by simp
  have w: "\<exists>q. writes_x0 ?p 3 (pc ?p) = Returns 0x2004 q \<and> XPR q 0 = 7"
    by (simp add: writes_x0_def example_processor_def)
  from e1 z1 have a1: "\<exists>p'. execute_insn example_consts (fetches 3) example_dispatch False ?p =
           Returns () p' \<and> XPR p' 0 = 0"
    by (intro exI [of _ ?p1] conjI)
  from e2 z2 have a2: "\<exists>p'. for_each example_consts (fetches 3) example_dispatch 2 False 0 ?p =
           (2, Returns () p') \<and> XPR p' 0 = 0"
    by (intro exI [of _ ?p2] conjI)
  from e3 z3 have a3: "\<exists>p'. for_unrolled example_consts (fetches 3) example_dispatch 4 0 ?p =
           (4, Returns () p') \<and> XPR p' 0 = 0"
    by (intro exI [of _ ?p3] conjI)
  show ?thesis
    using w a1 a2 a3 by (intro conjI) simp_all
qed

section \<open>Decode and dispatch\<close>

lemma declare_insns_filter:
  "declare_insns a opcodes i chain = chain @ filter (candidate a i) opcodes"
proof -
  have "fold (\<lambda>e c. if candidate a i e then c @ [e] else c) opcodes chain =
      chain @ filter (candidate a i) opcodes"
    by (induction opcodes arbitrary: chain) simp_all
  then show ?thesis
    by (simp add: declare_insns_def candidate_def)
qed

lemma built_chain:
  assumes "idx < DISPATCH_TABLE_SIZE a"
  shows "dispatch_chain (initialize_dispatch_table a opcodes (static_init a)) ! idx =
     filter (candidate a idx) opcodes"
  using assms
  by (simp add: initialize_dispatch_table_def static_init_def Let_def declare_insns_filter)

lemma built_table:
  assumes "idx < DISPATCH_TABLE_SIZE a"
  shows "dispatch_table (initialize_dispatch_table a opcodes (static_init a)) ! idx =
     (if length (filter (candidate a idx) opcodes) = 1
      then Some (Insn_func (func (filter (candidate a idx) opcodes ! 0)))
      else Some Dispatch)"
  using assms
  by (simp add: initialize_dispatch_table_def static_init_def Let_def declare_insns_filter)

lemma initialize_idempotent:
  assumes "0 < DISPATCH_TABLE_SIZE a"
  shows "initialize_dispatch_table a opcodes
           (initialize_dispatch_table a opcodes (static_init a)) =
         initialize_dispatch_table a opcodes (static_init a)"
proof -
  have "dispatch_table (initialize_dispatch_table a opcodes (static_init a)) ! 0 \<noteq> None"
    by (simp add: built_table [OF assms])
  then show ?thesis
    by (subst initialize_dispatch_table_def) simp
qed

lemma slot_index:
  fixes w :: "32 word"
  assumes "k \<le> 32"
  shows "word_of_nat (unat w mod 2 ^ k) = take_bit k w"
    and "(word_of_nat (2 ^ k - 1) :: 32 word) = mask k"
proof -
  have "unat (take_bit k w) = take_bit k (unat w)"
    by (rule unsigned_take_bit_eq)
  also have "\<dots> = unat w mod 2 ^ k"
    by (rule take_bit_eq_mod)
  finally have "unat w mod 2 ^ k = unat (take_bit k w)" by (rule sym)
  then show "word_of_nat (unat w mod 2 ^ k) = take_bit k w"
    by simp
  show "(word_of_nat (2 ^ k - 1) :: 32 word) = mask k"
    by (simp add: mask_eq_exp_minus_1 of_nat_diff)
qed

lemma match_candidate:
  fixes w :: "32 word"
  assumes S: "DISPATCH_TABLE_SIZE a = 2 ^ k" and k: "k \<le> 32"
    and m: "w AND mask_bits e = opcode e"
  shows "candidate a (unat w mod DISPATCH_TABLE_SIZE a) e"
proof -
  have "take_bit k w AND mask_bits e = (w AND mask_bits e) AND mask_bits e AND mask k"
    by (auto simp: bit_eq_iff bit_simps)
  then show ?thesis
    unfolding candidate_def S slot_index [OF k] m .
qed

lemma find_filter:
  "(\<And>x. x \<in> set xs \<Longrightarrow> P x \<Longrightarrow> Q x) \<Longrightarrow> find P (filter Q xs) = find P xs"
  by (induction xs) auto


lemma dispatch_select_built:
  assumes S: "DISPATCH_TABLE_SIZE a = 2 ^ k" and k: "k \<le> 32"
  shows "dispatch_select a (initialize_dispatch_table a opcodes (static_init a)) w =
     linear_scan_spec opcodes w"
proof -
  let ?idx = "unat w mod DISPATCH_TABLE_SIZE a"
  have idx: "?idx < DISPATCH_TABLE_SIZE a" by (simp add: S)
  have "find (\<lambda>c. w AND mask_bits c = opcode c) (filter (candidate a ?idx) opcodes) =
      find (\<lambda>c. w AND mask_bits c = opcode c) opcodes"
    by (rule find_filter) (rule match_candidate [OF S k])
  then show ?thesis
    by (simp add: dispatch_select_def linear_scan_spec_def Let_def built_chain [OF idx])
qed

text \<open>
  C1, as the code has it. Let the table size be a power of two, at most \<open>2 ^ 32\<close>,
  and the table be built from the opcode table by the first call of
  \<^verbatim>\<open>initialize_dispatch_table\<close>. For an instruction word whose slot has no or
  several candidates, and for a word that matches some entry of the opcode table,
  dispatch through the table gives what the first-match scan of the opcode table gives:
  the same handler, or the illegal-instruction trap. A slot with exactly one candidate
  is bound to that candidate's handler, which every word of the slot reaches without a
  test of its other bits. In particular, with two entries in the table, a word that
  matches the second and not the first reaches the second handler.
\<close>

theorem table_dispatch_vs_linear_scan:
  fixes w :: insn_t
  assumes S: "DISPATCH_TABLE_SIZE a = 2 ^ k" and k: "k \<le> 32"
  shows
   "(length (dispatch_chain (initialize_dispatch_table a opcodes (static_init a)) !
        (unat w mod DISPATCH_TABLE_SIZE a)) \<noteq> 1 \<or>
     (\<exists>e\<in>set opcodes. w AND mask_bits e = opcode e) \<longrightarrow>
     table_select a (initialize_dispatch_table a opcodes (static_init a)) w =
       linear_scan_spec opcodes w) \<and>
    (length (dispatch_chain (initialize_dispatch_table a opcodes (static_init a)) !
        (unat w mod DISPATCH_TABLE_SIZE a)) = 1 \<longrightarrow>
     table_select a (initialize_dispatch_table a opcodes (static_init a)) w =
       Handler (func (dispatch_chain (initialize_dispatch_table a opcodes (static_init a)) !
        (unat w mod DISPATCH_TABLE_SIZE a) ! 0))) \<and>
    (opcodes = [e1, e2] \<and> w AND mask_bits e1 \<noteq> opcode e1 \<and> w AND mask_bits e2 = opcode e2 \<longrightarrow>
     table_select a (initialize_dispatch_table a opcodes (static_init a)) w =
       Handler (func e2))"
proof -
  let ?g = "initialize_dispatch_table a opcodes (static_init a)"
  let ?idx = "unat w mod DISPATCH_TABLE_SIZE a"
  let ?chain = "filter (candidate a ?idx) opcodes"
  let ?P = "\<lambda>c. w AND mask_bits c = opcode c"
  have idx: "?idx < DISPATCH_TABLE_SIZE a" by (simp add: S)
  note chain = built_chain [OF idx, of opcodes]
  note table = built_table [OF idx, of opcodes]
  have fallback: "table_select a ?g w = linear_scan_spec opcodes w" if "length ?chain \<noteq> 1"
    using that by (simp add: table_select_def table dispatch_select_built [OF S k])
  have direct: "table_select a ?g w = Handler (func (?chain ! 0))" if "length ?chain = 1"
    using that by (simp add: table_select_def table)
  have hit: "table_select a ?g w = linear_scan_spec opcodes w"
    if one: "length ?chain = 1" and ex: "\<exists>e\<in>set opcodes. ?P e"
  proof -
    from ex obtain e' where f: "find ?P opcodes = Some e'"
      by (cases "find ?P opcodes") (auto simp: find_None_iff)
    then have "e' \<in> set opcodes" "?P e'"
      by (auto simp: find_Some_iff)
    then have "e' \<in> set ?chain"
      using match_candidate [OF S k, of w e'] by simp
    moreover from one obtain c where c: "?chain = [c]"
      by (cases ?chain) auto
    ultimately have "e' = c" by simp
    with f c direct [OF one] show ?thesis
      by (simp add: linear_scan_spec_def)
  qed
  have all: "table_select a ?g w = linear_scan_spec opcodes w"
    if "length ?chain \<noteq> 1 \<or> (\<exists>e\<in>set opcodes. ?P e)"
    using that fallback hit by blast
  have two: "table_select a ?g w = Handler (func e2)"
    if "opcodes = [e1, e2] \<and> \<not> ?P e1 \<and> ?P e2"
  proof -
    from that have "\<exists>e\<in>set opcodes. ?P e" by auto
    then have "table_select a ?g w = linear_scan_spec opcodes w" using all by blast
    with that show ?thesis by (simp add: linear_scan_spec_def)
  qed
  show ?thesis
    unfolding chain using all direct two by blast
qed

text \<open>
  C1 on the instance (four slots). The entries \<open>A\<close> (opcode 3) and \<open>B\<close> (opcode
  7), both with mask 7, share slot 3; the word 7 matches only \<open>B\<close> and reaches
  \<open>B\<close>. With \<open>A\<close> alone in the table, slot 3 is bound to \<open>A\<close>.
\<close>

theorem table_dispatch_vs_linear_scan_witness:
  "DISPATCH_TABLE_SIZE example_consts = 2 ^ 2 \<and> (2 :: nat) \<le> 32 \<and>
   length (dispatch_chain (initialize_dispatch_table example_consts
       [\<lparr>func = ''A'', opcode = 3, mask_bits = 7\<rparr>, \<lparr>func = ''B'', opcode = 7, mask_bits = 7\<rparr>]
       (static_init example_consts)) ! (unat (7 :: insn_t) mod DISPATCH_TABLE_SIZE example_consts))
     = 2 \<and>
   (7 :: insn_t) AND 7 \<noteq> 3 \<and> (7 :: insn_t) AND 7 = 7 \<and>
   table_select example_consts (initialize_dispatch_table example_consts
       [\<lparr>func = ''A'', opcode = 3, mask_bits = 7\<rparr>, \<lparr>func = ''B'', opcode = 7, mask_bits = 7\<rparr>]
       (static_init example_consts)) 7 = Handler ''B'' \<and>
   linear_scan_spec
       [\<lparr>func = ''A'', opcode = 3, mask_bits = 7\<rparr>, \<lparr>func = ''B'', opcode = 7, mask_bits = 7\<rparr>] 7
     = Handler ''B'' \<and>
   length (dispatch_chain (initialize_dispatch_table example_consts
       [\<lparr>func = ''A'', opcode = 3, mask_bits = 7\<rparr>]
       (static_init example_consts)) ! (unat (3 :: insn_t) mod DISPATCH_TABLE_SIZE example_consts))
     = 1 \<and>
   table_select example_consts (initialize_dispatch_table example_consts
       [\<lparr>func = ''A'', opcode = 3, mask_bits = 7\<rparr>] (static_init example_consts)) 3 = Handler ''A''"
proof -
  let ?A = "\<lparr>func = ''A'', opcode = 3, mask_bits = 7\<rparr> :: string insn_chain_t"
  let ?B = "\<lparr>func = ''B'', opcode = 7, mask_bits = 7\<rparr> :: string insn_chain_t"
  have h: "DISPATCH_TABLE_SIZE example_consts = 2 ^ 2" "(2 :: nat) \<le> 32"
    by (simp_all add: example_consts_def)
  have idx: "unat (7 :: insn_t) mod DISPATCH_TABLE_SIZE example_consts = 3"
    "unat (3 :: insn_t) mod DISPATCH_TABLE_SIZE example_consts = 3"
    "(3 :: nat) < DISPATCH_TABLE_SIZE example_consts"
    by (simp_all add: example_consts_def)
  have c2: "dispatch_chain (initialize_dispatch_table example_consts [?A, ?B]
       (static_init example_consts)) ! 3 = [?A, ?B]"
    by (simp only: built_chain [OF idx(3)]) (simp add: candidate_def example_consts_def)
  have c1: "dispatch_chain (initialize_dispatch_table example_consts [?A]
       (static_init example_consts)) ! 3 = [?A]"
    by (simp only: built_chain [OF idx(3)]) (simp add: candidate_def example_consts_def)
  note two = table_dispatch_vs_linear_scan [OF h, of "[?A, ?B]" 7 ?A ?B, unfolded idx c2]
  note one = table_dispatch_vs_linear_scan [OF h, of "[?A]" 3 ?A ?A, unfolded idx c1]
  have s: "linear_scan_spec [?A, ?B] 7 = Handler ''B''"
    by (simp add: linear_scan_spec_def)
  from two s have t2: "table_select example_consts (initialize_dispatch_table example_consts
       [?A, ?B] (static_init example_consts)) 7 = Handler ''B''"
    by simp
  from one have t1: "table_select example_consts (initialize_dispatch_table example_consts
       [?A] (static_init example_consts)) 3 = Handler ''A''"
    by (simp add: linear_scan_spec_def)
  show ?thesis
    unfolding idx c1 c2 using h t1 t2 s by simp
qed

text \<open>
  C1 as stated fails on a slot with one candidate. With the single entry \<open>A\<close>
  (opcode 3, all 32 bits compared) in a four-slot table, the word 7 falls into slot 3
  and reaches \<open>A\<close>, while the scan of the opcode table finds no match for it.
\<close>

theorem table_dispatch_counterexample:
  "table_select example_consts (initialize_dispatch_table example_consts
       [\<lparr>func = ''A'', opcode = 3, mask_bits = 0xFFFFFFFF\<rparr>] (static_init example_consts)) 7
     = Handler ''A'' \<and>
   linear_scan_spec [\<lparr>func = ''A'', opcode = 3, mask_bits = 0xFFFFFFFF\<rparr>] 7
     = Illegal_instruction"
  by (simp add: table_select_def initialize_dispatch_table_def static_init_def
      declare_insns_def linear_scan_spec_def example_consts_def Let_def upt4)

section \<open>The all-zero-memory scenario\<close>

lemma execute_insn_illegal:
  "table_select a g w = Illegal_instruction \<Longrightarrow>
   execute_insn a (fetches w) g noisy p = Throws (Trap (trap_illegal_instruction a)) p"
  by (simp add: execute_insn_def fetches_def)

lemma take_interrupt_none:
  "cause p AND CAUSE_IP a = 0 \<Longrightarrow> take_interrupt a p = Returns () p"
  by (simp add: take_interrupt_def)

lemma try_block_throws:
  assumes "take_interrupt a p = Returns () p" and "i < n"
    and "execute_insn a ld g noisy p = Throws s p'"
  shows "try_block a ld g n noisy i p = (i, Throws s p')"
proof (cases noisy)
  case True
  with assms show ?thesis
    by (simp add: try_block_def for_each.simps)
next
  case False
  with assms show ?thesis
    by (cases "n > 3 \<and> i < n - 3")
       (simp_all add: try_block_def for_each.simps for_unrolled.simps and_then_def)
qed

lemma try_block_done:
  assumes "take_interrupt a p = Returns () p" and "\<not> i < n"
  shows "try_block a ld g n noisy i p = (i, Returns () p)"
proof -
  from assms(2) have nn: "(n > 3 \<and> i < n - 3) = False" by arith
  have u: "for_unrolled a ld g n i p = (i, Returns () p)"
    by (subst for_unrolled.simps) (simp only: nn if_False)
  have e: "for_each a ld g n b i p = (i, Returns () p)" for b
    by (subst for_each.simps) (simp only: assms(2) if_False)
  show ?thesis
    by (simp add: try_block_def assms(1) u e)
qed

lemma step_loop_trap:
  assumes "try_block a ld g n noisy i p = (i', Throws (Trap t) p')"
  shows "step_loop a ld g n noisy i p =
    (case take_trap a t noisy p' of
       Inl d \<Rightarrow> Some (Fatal d)
     | Inr p'' \<Rightarrow> step_loop a ld g n noisy (Suc i') p'')"
  by (subst step_loop.simps) (simp add: assms)

lemma step_loop_break:
  assumes "try_block a ld g n noisy i p = (i', Returns u p')"
  shows "step_loop a ld g n noisy i p = Some (Break i' p')"
  by (subst step_loop.simps) (simp add: assms)


lemma scenario_fields:
  fixes p0 :: "('w::len) word processor_t"
  assumes kept: "SR_ET a AND
      (SR_ZERO a OR SR_SX a OR SR_UX a OR SR_EF a OR SR_EC a OR SR_EV a) = 0"
  shows "sr (scenario_start a p0) AND SR_ET a = SR_ET a" "cause (scenario_start a p0) = 0"
    "pc (scenario_start a p0) = 0" "evec (scenario_start a p0) = 0x100"
    "count (scenario_start a p0) = 0" "compare (scenario_start a p0) = 0"
    "run (scenario_start a p0)" "id_core (scenario_start a p0) = id_core p0"
proof -
  have "sr (scenario_start a p0) AND SR_ET a = (sr (reset a p0) OR SR_ET a) AND SR_ET a"
    unfolding scenario_start_def by (simp add: set_sr_keeps [OF kept])
  then show "sr (scenario_start a p0) AND SR_ET a = SR_ET a"
    by (simp add: or_and_same(2))
qed (simp_all add: scenario_start_def set_sr_fields reset_def set_fsr_def Let_def)

lemma scenario_run:
  fixes P :: "('w::len) word processor_t"
  assumes ill: "table_select a g 0 = Illegal_instruction"
    and lay: "SR_ET a AND SR_S a = 0" "SR_ET a AND SR_PS a = 0"
    and num: "trap_illegal_instruction a < NUM_TRAPS a"
    and noip: "push_bit (CAUSE_EXCCODE_SHIFT a) (word_of_nat (trap_illegal_instruction a)) AND
        CAUSE_IP a = 0"
    and notimer: "push_bit (CAUSE_EXCCODE_SHIFT a) (word_of_nat (trap_illegal_instruction a)) AND
        push_bit (TIMER_IRQ a + CAUSE_IP_SHIFT a) 1 = (0 :: 32 word)"
    and f: "sr P AND SR_ET a \<noteq> 0" "cause P = 0" "pc P = 0" "evec P = 0x100" "count P = 0"
      "compare P = 0" "run P"
  shows "execute_insn a (fetches 0) g noisy P = Throws (Trap (trap_illegal_instruction a)) P \<and>
     (\<exists>P1. step a (fetches 0) g 1 noisy P = Some (Inr P1) \<and>
        epc P1 = pc P \<and> pc P1 = 0x100 \<and> sr P1 AND SR_ET a = 0 \<and>
        count P1 = 1 \<and> compare P1 = 0 \<and>
        cause P1 AND push_bit (TIMER_IRQ a + CAUSE_IP_SHIFT a) 1 = 0) \<and>
     step a (fetches 0) g 5 noisy P =
       Some (Inl (Error_mode (id_core P) (trap_illegal_instruction a) 0x100)) \<and>
     step a (fetches 0) g 5 noisy (P\<lparr>run := False\<rparr>) = Some (Inr (P\<lparr>run := False\<rparr>))"
proof -
  let ?t = "trap_illegal_instruction a"
  let ?c = "push_bit (CAUSE_EXCCODE_SHIFT a) (word_of_nat ?t) :: 32 word"
  have thr: "execute_insn a (fetches 0) g b q = Throws (Trap ?t) q" for b q
    by (rule execute_insn_illegal [OF ill])
  have ti: "take_interrupt a P = Returns () P"
    by (rule take_interrupt_none) (simp add: f)
  define P1 where "P1 = (set_sr a (trap_sr a (sr P)) P)
           \<lparr>cause := (cause P AND NOT (CAUSE_EXCCODE a)) OR ?c,
            epc := pc P, pc := evec P,
            badvaddr := get_badvaddr (mmu (set_sr a (trap_sr a (sr P)) P))\<rparr>"
  have tt: "take_trap a ?t noisy P = Inr P1"
    unfolding P1_def by (rule take_trap_ok [OF num f(1)])
  have et: "sr P1 AND SR_ET a = 0"
    by (rule take_trap_clears_ET [OF tt lay])
  have g: "cause P1 = ?c" "pc P1 = 0x100" "epc P1 = 0" "count P1 = 0" "compare P1 = 0"
    "id_core P1 = id_core P"
    by (simp_all add: P1_def set_sr_fields f)
  have ti1: "take_interrupt a P1 = Returns () P1"
    by (rule take_interrupt_none) (simp add: g noip)
  have fatal: "take_trap a ?t noisy P1 = Inl (Error_mode (id_core P) ?t 0x100)"
    by (simp add: take_trap_def demand_def num et g)
  have first: "step_loop a (fetches 0) g n noisy 0 P =
      step_loop a (fetches 0) g n noisy (Suc 0) P1" if "0 < n" for n
    by (simp add: step_loop_trap [OF try_block_throws [OF ti that thr]] tt)
  have one: "step_loop a (fetches 0) g 1 noisy 0 P = Some (Break 1 P1)"
    using first [of 1] step_loop_break [OF try_block_done [OF ti1, of 1 1]] by simp
  have five: "step_loop a (fetches 0) g 5 noisy 0 P =
      Some (Fatal (Error_mode (id_core P) ?t 0x100))"
    using first [of 5]
    by (simp add: step_loop_trap [OF try_block_throws [OF ti1 _ thr]] fatal)
  let ?Q = "timer_update a 1 P1"
  have s1: "step a (fetches 0) g 1 noisy P = Some (Inr ?Q)"
    unfolding step_def one using f(7) by simp
  have q: "epc ?Q = pc P" "pc ?Q = 0x100" "sr ?Q AND SR_ET a = 0" "count ?Q = 1"
    "compare ?Q = 0" "cause ?Q AND push_bit (TIMER_IRQ a + CAUSE_IP_SHIFT a) 1 = 0"
    using et notimer by (simp_all add: timer_update_def Let_def g f)
  have s5: "step a (fetches 0) g 5 noisy P = Some (Inl (Error_mode (id_core P) ?t 0x100))"
    unfolding step_def five using f(7) by simp
  have s0: "step a (fetches 0) g 5 noisy (P\<lparr>run := False\<rparr>) = Some (Inr (P\<lparr>run := False\<rparr>))"
    by (simp add: step_def)
  from s1 q have e1: "\<exists>P1. step a (fetches 0) g 1 noisy P = Some (Inr P1) \<and>
        epc P1 = pc P \<and> pc P1 = 0x100 \<and> sr P1 AND SR_ET a = 0 \<and>
        count P1 = 1 \<and> compare P1 = 0 \<and>
        cause P1 AND push_bit (TIMER_IRQ a + CAUSE_IP_SHIFT a) 1 = 0"
    by (intro exI [of _ ?Q] conjI)
  show ?thesis
    using thr [of noisy P] e1 s5 s0 by (intro conjI)
qed

text \<open>
  C4, as the code has it. Let the header constants be laid out so that \<^verbatim>\<open>SR_ET\<close>
  is a status bit that \<^verbatim>\<open>set_sr\<close> keeps and shares no bit with \<^verbatim>\<open>SR_S\<close> and
  \<^verbatim>\<open>SR_PS\<close>, and the illegal-instruction code is in the legal range and, placed in
  the exception-code field, touches neither the pending-interrupt field nor the timer
  bit. A processor is reset, made runnable, given \<^verbatim>\<open>compare = 0\<close>, trap vector
  \<open>0x100\<close> and traps enabled on top of supervisor mode; the memory holds 0 everywhere
  and 0 decodes to no instruction. Then the first instruction raises the
  illegal-instruction trap. A batch of one instruction delivers it: \<^verbatim>\<open>epc\<close> is the
  initial program counter, the program counter is \<open>0x100\<close>, traps are disabled, the
  counter is 1, and the timer interrupt-pending bit is clear. A batch of five aborts the
  process at its second instruction, which faults at \<open>0x100\<close> while traps are disabled.
  Left not runnable, as \<^verbatim>\<open>reset\<close> leaves it, the processor does nothing in
  \<^verbatim>\<open>step\<close>.
\<close>

theorem scenario_all_zero_memory:
  fixes p0 :: "('w::len) word processor_t"
  assumes ill: "table_select a g 0 = Illegal_instruction"
    and lay: "SR_ET a AND SR_S a = 0" "SR_ET a AND SR_PS a = 0"
    and kept: "SR_ET a AND
      (SR_ZERO a OR SR_SX a OR SR_UX a OR SR_EF a OR SR_EC a OR SR_EV a) = 0"
    and nonzero: "SR_ET a \<noteq> 0"
    and num: "trap_illegal_instruction a < NUM_TRAPS a"
    and noip: "push_bit (CAUSE_EXCCODE_SHIFT a) (word_of_nat (trap_illegal_instruction a)) AND
        CAUSE_IP a = 0"
    and notimer: "push_bit (CAUSE_EXCCODE_SHIFT a) (word_of_nat (trap_illegal_instruction a)) AND
        push_bit (TIMER_IRQ a + CAUSE_IP_SHIFT a) 1 = (0 :: 32 word)"
  shows "execute_insn a (fetches 0) g noisy (scenario_start a p0) =
       Throws (Trap (trap_illegal_instruction a)) (scenario_start a p0) \<and>
     (\<exists>P1. step a (fetches 0) g 1 noisy (scenario_start a p0) = Some (Inr P1) \<and>
        epc P1 = pc (scenario_start a p0) \<and> pc P1 = 0x100 \<and> sr P1 AND SR_ET a = 0 \<and>
        count P1 = 1 \<and> compare P1 = 0 \<and>
        cause P1 AND push_bit (TIMER_IRQ a + CAUSE_IP_SHIFT a) 1 = 0) \<and>
     step a (fetches 0) g 5 noisy (scenario_start a p0) =
       Some (Inl (Error_mode (id_core p0) (trap_illegal_instruction a) 0x100)) \<and>
     step a (fetches 0) g 5 noisy ((scenario_start a p0)\<lparr>run := False\<rparr>) =
       Some (Inr ((scenario_start a p0)\<lparr>run := False\<rparr>))"
proof -
  note f = scenario_fields [OF kept, of p0]
  from f(1) nonzero have et: "sr (scenario_start a p0) AND SR_ET a \<noteq> 0"
    by simp
  show ?thesis
    using scenario_run [OF ill lay num noip notimer et f(2-7), of noisy] unfolding f(8) .
qed

text \<open>
  C4 on the instance of the constants, with the dispatch state of the instance and the
  processor of the instance before the reset.
\<close>

theorem scenario_all_zero_memory_witness:
  "table_select example_consts example_dispatch 0 = Illegal_instruction \<and>
   SR_ET example_consts AND SR_S example_consts = 0 \<and>
   SR_ET example_consts AND SR_PS example_consts = 0 \<and>
   SR_ET example_consts AND
      (SR_ZERO example_consts OR SR_SX example_consts OR SR_UX example_consts OR
       SR_EF example_consts OR SR_EC example_consts OR SR_EV example_consts) = 0 \<and>
   SR_ET example_consts \<noteq> 0 \<and>
   trap_illegal_instruction example_consts < NUM_TRAPS example_consts \<and>
   push_bit (CAUSE_EXCCODE_SHIFT example_consts)
      (word_of_nat (trap_illegal_instruction example_consts)) AND CAUSE_IP example_consts = 0 \<and>
   push_bit (CAUSE_EXCCODE_SHIFT example_consts)
      (word_of_nat (trap_illegal_instruction example_consts)) AND
      push_bit (TIMER_IRQ example_consts + CAUSE_IP_SHIFT example_consts) 1 = (0 :: 32 word) \<and>
   execute_insn example_consts (fetches 0) example_dispatch False
       (scenario_start example_consts example_processor) =
     Throws (Trap (trap_illegal_instruction example_consts))
       (scenario_start example_consts example_processor) \<and>
   (\<exists>P1. step example_consts (fetches 0) example_dispatch 1 False
            (scenario_start example_consts example_processor) = Some (Inr P1) \<and>
      epc P1 = pc (scenario_start example_consts example_processor) \<and> pc P1 = 0x100 \<and>
      sr P1 AND SR_ET example_consts = 0 \<and> count P1 = 1 \<and> compare P1 = 0 \<and>
      cause P1 AND push_bit (TIMER_IRQ example_consts + CAUSE_IP_SHIFT example_consts) 1 = 0) \<and>
   step example_consts (fetches 0) example_dispatch 5 False
       (scenario_start example_consts example_processor) =
     Some (Inl (Error_mode (id_core example_processor)
       (trap_illegal_instruction example_consts) 0x100)) \<and>
   step example_consts (fetches 0) example_dispatch 5 False
       ((scenario_start example_consts example_processor)\<lparr>run := False\<rparr>) =
     Some (Inr ((scenario_start example_consts example_processor)\<lparr>run := False\<rparr>))"
proof -
  have h: "SR_ET example_consts AND SR_S example_consts = 0"
    "SR_ET example_consts AND SR_PS example_consts = 0"
    "SR_ET example_consts AND
      (SR_ZERO example_consts OR SR_SX example_consts OR SR_UX example_consts OR
       SR_EF example_consts OR SR_EC example_consts OR SR_EV example_consts) = 0"
    "SR_ET example_consts \<noteq> 0"
    "trap_illegal_instruction example_consts < NUM_TRAPS example_consts"
    "push_bit (CAUSE_EXCCODE_SHIFT example_consts)
      (word_of_nat (trap_illegal_instruction example_consts)) AND CAUSE_IP example_consts = 0"
    "push_bit (CAUSE_EXCCODE_SHIFT example_consts)
      (word_of_nat (trap_illegal_instruction example_consts)) AND
      push_bit (TIMER_IRQ example_consts + CAUSE_IP_SHIFT example_consts) 1 = (0 :: 32 word)"
    by (simp_all add: example_consts_def)
  note t = scenario_all_zero_memory [OF example_select(3) h, of False example_processor]
  show ?thesis
    by (rule conjI [OF example_select(3) conjI [OF h(1) conjI [OF h(2) conjI [OF h(3)
          conjI [OF h(4) conjI [OF h(5) conjI [OF h(6) conjI [OF h(7) t]]]]]]]])
qed

text \<open>
  C4 as stated fails. On the instance, the batch of five instructions does not end with
  the timer interrupt-pending bit set: it aborts with the error-mode diagnostic of core
  3 for trap 2 at \<open>0x100\<close>. A batch of one instruction ends, with the bit (\<open>0x8000\<close>)
  clear.
\<close>

theorem scenario_all_zero_memory_counterexample:
  "step example_consts (fetches 0) example_dispatch 5 False
       (scenario_start example_consts example_processor) =
     Some (Inl (Error_mode 3 2 0x100)) \<and>
   step example_consts (fetches 0) example_dispatch 1 False
       (scenario_start example_consts example_processor) \<noteq> None \<and>
   \<not> isl (the (step example_consts (fetches 0) example_dispatch 1 False
                 (scenario_start example_consts example_processor))) \<and>
   cause (projr (the (step example_consts (fetches 0) example_dispatch 1 False
                 (scenario_start example_consts example_processor)))) AND 0x8000 = 0"
proof -
  have h: "SR_ET example_consts AND SR_S example_consts = 0"
    "SR_ET example_consts AND SR_PS example_consts = 0"
    "trap_illegal_instruction example_consts < NUM_TRAPS example_consts"
    "push_bit (CAUSE_EXCCODE_SHIFT example_consts)
      (word_of_nat (trap_illegal_instruction example_consts)) AND CAUSE_IP example_consts = 0"
    "push_bit (CAUSE_EXCCODE_SHIFT example_consts)
      (word_of_nat (trap_illegal_instruction example_consts)) AND
      push_bit (TIMER_IRQ example_consts + CAUSE_IP_SHIFT example_consts) 1 = (0 :: 32 word)"
    and kept: "SR_ET example_consts AND
      (SR_ZERO example_consts OR SR_SX example_consts OR SR_UX example_consts OR
       SR_EF example_consts OR SR_EC example_consts OR SR_EV example_consts) = 0"
    and nz: "SR_ET example_consts \<noteq> 0"
    by (simp_all add: example_consts_def)
  note f = scenario_fields [OF kept, of example_processor]
  from f(1) nz have et:
    "sr (scenario_start example_consts example_processor) AND SR_ET example_consts \<noteq> 0"
    by simp
  note r = scenario_run [OF example_select(3) h et f(2-7), of False]
  have c: "id_core (scenario_start example_consts example_processor) = 3"
    "trap_illegal_instruction example_consts = 2"
    "push_bit (TIMER_IRQ example_consts + CAUSE_IP_SHIFT example_consts) 1 = (0x8000 :: 32 word)"
  proof -
    show "id_core (scenario_start example_consts example_processor) = 3"
      unfolding f(8) by (simp add: example_processor_def)
  qed (simp_all add: example_consts_def)
  from r obtain P1 where
    "step example_consts (fetches 0) example_dispatch 1 False
       (scenario_start example_consts example_processor) = Some (Inr P1)"
    "cause P1 AND 0x8000 = 0"
    unfolding c by blast
  with r show ?thesis unfolding c by simp
qed

section \<open>The step loop ends\<close>

text \<open>
  When \<^verbatim>\<open>SR_ET\<close> shares no bit with \<^verbatim>\<open>SR_S\<close> and \<^verbatim>\<open>SR_PS\<close>, a delivered
  trap leaves traps disabled, and \<^verbatim>\<open>step\<close> returns for every memory, every
  handler table and every batch size: each pass through the \<^verbatim>\<open>try\<close> block either
  ends the loop, or moves \<open>i\<close> towards \<open>n\<close>, or delivers the one interrupt that can
  be pending while traps are enabled.
\<close>

lemma for_each_throws_index:
  "for_each a ld g n noisy i p = (i', Throws s p') \<Longrightarrow> i \<le> i' \<and> i' < n"
proof (induction a ld g n noisy i p rule: for_each.induct)
  case (1 a ld g n noisy i p)
  show ?case
  proof (cases "i < n")
    case True
    show ?thesis
    proof (cases "execute_insn a ld g noisy p")
      case (Returns u q)
      with "1.prems" True have "for_each a ld g n noisy (Suc i) q = (i', Throws s p')"
        by (subst (asm) for_each.simps) simp
      from "1.IH" [OF True Returns this] show ?thesis by simp
    next
      case (Throws s' q)
      with "1.prems" True show ?thesis
        by (subst (asm) for_each.simps) simp
    next
      case (Aborts d)
      with "1.prems" True show ?thesis
        by (subst (asm) for_each.simps) simp
    qed
  next
    case False
    with "1.prems" show ?thesis
      by (subst (asm) for_each.simps) simp
  qed
qed

lemma for_unrolled_index:
  "for_unrolled a ld g n i p = (i', r) \<Longrightarrow>
   i \<le> i' \<and> ((\<exists>s p'. r = Throws s p') \<longrightarrow> i' < n)"
proof (induction a ld g n i p rule: for_unrolled.induct)
  case (1 a ld g n i p)
  let ?four = "and_then (and_then (and_then (execute_insn a ld g False p)
                   (execute_insn a ld g False)) (execute_insn a ld g False))
                   (execute_insn a ld g False)"
  show ?case
  proof (cases "n > 3 \<and> i < n - 3")
    case True
    show ?thesis
    proof (cases ?four)
      case (Returns u q)
      with "1.prems" True have "for_unrolled a ld g n (i + 4) q = (i', r)"
        by (subst (asm) for_unrolled.simps) simp
      from "1.IH" [OF True Returns this] show ?thesis by simp
    next
      case (Throws s' q)
      with "1.prems" True show ?thesis
        by (subst (asm) for_unrolled.simps) auto
    next
      case (Aborts d)
      with "1.prems" True show ?thesis
        by (subst (asm) for_unrolled.simps) auto
    qed
  next
    case False
    with "1.prems" show ?thesis
      by (subst (asm) for_unrolled.simps) auto
  qed
qed

lemma try_block_throws_index:
  assumes "try_block a ld g n noisy i p = (i', Throws s p')"
  shows "(i' = i \<and> p' = p \<and> s = Trap (trap_interrupt a) \<and> sr p AND SR_ET a \<noteq> 0) \<or>
         (i \<le> i' \<and> i' < n)"
proof (cases "take_interrupt a p")
  case (Returns u q)
  then have q: "q = p"
    by (simp add: take_interrupt_def Let_def split: if_splits)
  show ?thesis
  proof (cases noisy)
    case True
    with assms Returns q have "for_each a ld g n True i p = (i', Throws s p')"
      by (simp add: try_block_def)
    from for_each_throws_index [OF this] show ?thesis by simp
  next
    case False
    obtain j r where u: "for_unrolled a ld g n i p = (j, r)"
      by (cases "for_unrolled a ld g n i p")
    note ui = for_unrolled_index [OF u]
    show ?thesis
    proof (cases r)
      case (Returns v q')
      with assms \<open>take_interrupt a p = Returns u q\<close> q False u
      have "for_each a ld g n False j q' = (i', Throws s p')"
        by (simp add: try_block_def)
      from for_each_throws_index [OF this] ui show ?thesis by simp
    next
      case (Throws s' q')
      with assms \<open>take_interrupt a p = Returns u q\<close> q False u ui show ?thesis
        by (simp add: try_block_def)
    next
      case (Aborts d)
      with assms \<open>take_interrupt a p = Returns u q\<close> q False u show ?thesis
        by (simp add: try_block_def)
    qed
  qed
next
  case (Throws s' q)
  with assms show ?thesis
    by (auto simp: try_block_def take_interrupt_def Let_def split: if_splits)
next
  case (Aborts d)
  with assms show ?thesis
    by (simp add: try_block_def)
qed


lemma step_loop_total:
  assumes lay: "SR_ET a AND SR_S a = 0" "SR_ET a AND SR_PS a = 0"
  shows "\<exists>r. step_loop a ld g n noisy i p = Some r"
proof (induction "2 * (n - i) + (if sr p AND SR_ET a \<noteq> 0 then 1 else 0 :: nat)"
    arbitrary: i p rule: less_induct)
  case less
  obtain i' r where tb: "try_block a ld g n noisy i p = (i', r)"
    by (cases "try_block a ld g n noisy i p")
  show ?case
  proof (cases r)
    case (Returns u p')
    with tb show ?thesis by (simp add: step_loop_break)
  next
    case (Aborts d)
    with tb show ?thesis by (subst step_loop.simps) simp
  next
    case (Throws s p')
    note idx = try_block_throws_index [OF tb [unfolded Throws]]
    show ?thesis
    proof (cases s)
      case (Trap t)
      show ?thesis
      proof (cases "take_trap a t noisy p'")
        case (Inl d)
        with tb Throws Trap show ?thesis by (subst step_loop.simps) simp
      next
        case (Inr p'')
        have clr: "sr p'' AND SR_ET a = 0"
          by (rule take_trap_clears_ET [OF Inr lay])
        from idx clr
        have "2 * (n - Suc i') + (if sr p'' AND SR_ET a \<noteq> 0 then 1 else 0 :: nat)
            < 2 * (n - i) + (if sr p AND SR_ET a \<noteq> 0 then 1 else 0)"
          by auto
        from less [OF this] obtain r' where
          "step_loop a ld g n noisy (Suc i') p'' = Some r'" by blast
        with tb Throws Trap Inr show ?thesis by (simp add: step_loop_trap)
      qed
    next
      case (Vt_command c)
      show ?thesis
      proof (cases "c = vt_command_stop")
        case True
        with tb Throws Vt_command show ?thesis by (subst step_loop.simps) simp
      next
        case False
        from idx Vt_command have "i \<le> i'" "i' < n" by auto
        then have "2 * (n - Suc i') + (if sr p' AND SR_ET a \<noteq> 0 then 1 else 0 :: nat)
            < 2 * (n - i) + (if sr p AND SR_ET a \<noteq> 0 then 1 else 0)"
          by auto
        from less [OF this] obtain r' where
          "step_loop a ld g n noisy (Suc i') p' = Some r'" by blast
        with tb Throws Vt_command False show ?thesis by (subst step_loop.simps) simp
      qed
    next
      case Halt
      with tb Throws show ?thesis by (subst step_loop.simps) simp
    qed
  qed
qed

lemma step_total:
  assumes "SR_ET a AND SR_S a = 0" "SR_ET a AND SR_PS a = 0"
  shows "\<exists>r. step a ld g n noisy p = Some r"
proof (cases "run p")
  case True
  from step_loop_total [OF assms, of ld g n noisy 0 p] obtain r where
    "step_loop a ld g n noisy 0 p = Some r" by blast
  with True show ?thesis by (cases r) (simp_all add: step_def)
next
  case False
  then show ?thesis by (simp add: step_def)
qed

section \<open>The timer interrupt after a wrap-around\<close>

text \<open>
  On the instance, with the memory that holds the instruction of the instance everywhere,
  every instruction of a noisy batch retires, and \<^verbatim>\<open>step\<close> ends with the timer
  update for the whole batch.
\<close>

lemma example_for_each_all:
  "\<exists>q. for_each example_consts (fetches 3) example_dispatch n b i p = (max i n, Returns () q) \<and>
       count q = count p \<and> compare q = compare p \<and> cause q = cause p \<and> run q = run p"
proof (induction "n - i" arbitrary: i p)
  case 0
  then have "\<not> i < n" "max i n = i" by simp_all
  then show ?case
    by (subst for_each.simps) simp
next
  case (Suc d)
  then have lt: "i < n" and d: "d = n - Suc i" and m: "max i n = max (Suc i) n" by simp_all
  from Suc.hyps(1) [OF d, of "p\<lparr>pc := pc p + 4, XPR := (XPR p)(0 := 0)\<rparr>"]
  show ?case
    by (subst for_each.simps) (simp add: lt example_execute m)
qed

lemma example_step:
  assumes "run p" and "cause p AND CAUSE_IP example_consts = 0"
  shows "\<exists>q. step example_consts (fetches 3) example_dispatch n True p =
           Some (Inr (timer_update example_consts n q)) \<and>
       count q = count p \<and> compare q = compare p \<and> cause q = cause p"
proof -
  from example_for_each_all [of n True 0 p] obtain q where
    q: "for_each example_consts (fetches 3) example_dispatch n True 0 p = (n, Returns () q)"
    and f: "count q = count p" "compare q = compare p" "cause q = cause p"
    by auto
  have "try_block example_consts (fetches 3) example_dispatch n True 0 p = (n, Returns () q)"
    by (simp add: try_block_def take_interrupt_none [OF assms(2)] q)
  then have "step_loop example_consts (fetches 3) example_dispatch n True 0 p = Some (Break n q)"
    by (rule step_loop_break)
  then have "step example_consts (fetches 3) example_dispatch n True p =
      Some (Inr (timer_update example_consts n q))"
    by (rule step_break [OF assms(1)])
  with f show ?thesis by blast
qed

text \<open>
  C3 at two failing inputs. The timer interrupt-pending bit is to become set exactly
  when the counter crosses or reaches \<^verbatim>\<open>compare\<close> during the batch, also when the
  counter wraps around. With a 32-bit counter at \<open>0xFFFFFFFF\<close> and
  \<^verbatim>\<open>compare\<close> at 0, \<^verbatim>\<open>step\<close> with a batch of one instruction returns with the
  counter equal to \<^verbatim>\<open>compare\<close> and the bit clear. With the counter at
  \<open>0xFFFFFFF0\<close> and \<^verbatim>\<open>compare\<close> at 5, \<^verbatim>\<open>step\<close> with a batch of 32
  instructions returns with the counter at \<open>0x10\<close>, having passed 5 at its 21st
  instruction, and the bit clear.
\<close>

theorem step_misses_timer_after_wrap:
  "(\<exists>r. step example_consts (fetches 3) example_dispatch 1 True
          (example_processor\<lparr>count := 0xFFFFFFFF, compare := 0\<rparr>) = Some (Inr r) \<and>
        count r = compare r \<and>
        cause r AND push_bit (TIMER_IRQ example_consts + CAUSE_IP_SHIFT example_consts) 1 = 0) \<and>
   (0xFFFFFFF0 :: 32 word) + word_of_nat 21 = 5 \<and>
   (\<exists>r. step example_consts (fetches 3) example_dispatch 32 True
          (example_processor\<lparr>count := 0xFFFFFFF0, compare := 5\<rparr>) = Some (Inr r) \<and>
        count r = 0x10 \<and> compare r = 5 \<and>
        cause r AND push_bit (TIMER_IRQ example_consts + CAUSE_IP_SHIFT example_consts) 1 = 0)"
proof -
  let ?p = "example_processor\<lparr>count := 0xFFFFFFFF, compare := 0\<rparr>"
  let ?q = "example_processor\<lparr>count := 0xFFFFFFF0, compare := 5\<rparr>"
  have pre: "run ?p" "cause ?p AND CAUSE_IP example_consts = 0"
    "run ?q" "cause ?q AND CAUSE_IP example_consts = 0"
    by (simp_all add: example_processor_def)
  from example_step [OF pre(1,2), of 1] obtain p' where
    s1: "step example_consts (fetches 3) example_dispatch 1 True ?p =
           Some (Inr (timer_update example_consts 1 p'))"
    and f1: "count p' = 0xFFFFFFFF" "compare p' = 0" "cause p' = 0"
    by (auto simp: example_processor_def)
  from example_step [OF pre(3,4), of 32] obtain q' where
    s2: "step example_consts (fetches 3) example_dispatch 32 True ?q =
           Some (Inr (timer_update example_consts 32 q'))"
    and f2: "count q' = 0xFFFFFFF0" "compare q' = 5" "cause q' = 0"
    by (auto simp: example_processor_def)
  have t1: "count (timer_update example_consts 1 p') = compare (timer_update example_consts 1 p')"
    "cause (timer_update example_consts 1 p') AND
       push_bit (TIMER_IRQ example_consts + CAUSE_IP_SHIFT example_consts) 1 = 0"
    by (simp_all add: timer_update_def Let_def f1)
  have t2: "count (timer_update example_consts 32 q') = 0x10"
    "compare (timer_update example_consts 32 q') = 5"
    "cause (timer_update example_consts 32 q') AND
       push_bit (TIMER_IRQ example_consts + CAUSE_IP_SHIFT example_consts) 1 = 0"
    by (simp_all add: timer_update_def Let_def f2)
  from s1 t1 have a1: "\<exists>r. step example_consts (fetches 3) example_dispatch 1 True ?p =
        Some (Inr r) \<and> count r = compare r \<and>
        cause r AND push_bit (TIMER_IRQ example_consts + CAUSE_IP_SHIFT example_consts) 1 = 0"
    by (intro exI [of _ "timer_update example_consts 1 p'"] conjI)
  from s2 t2 have a2: "\<exists>r. step example_consts (fetches 3) example_dispatch 32 True ?q =
        Some (Inr r) \<and> count r = 0x10 \<and> compare r = 5 \<and>
        cause r AND push_bit (TIMER_IRQ example_consts + CAUSE_IP_SHIFT example_consts) 1 = 0"
    by (intro exI [of _ "timer_update example_consts 32 q'"] conjI)
  have a3: "(0xFFFFFFF0 :: 32 word) + word_of_nat 21 = 5"
    by simp
  show ?thesis
    by (rule conjI [OF a1 conjI [OF a3 a2]])
qed

end
